theory Spec2Isabelle
  imports Main "HOL-Library.Multiset"
begin

section \<open>Tomasulo simulator: data model\<close>

text \<open>
  A shallow embedding of \<^verbatim>\<open>FINAL-main.py\<close>. Python exceptions are values of
  \<open>py_error\<close>; a function that may raise returns \<open>py_error + 'a\<close>. Objects mutated
  in place are passed in and returned updated. Console output is not modelled.
\<close>

datatype py_error = IndexError | ValueError | KeyError | TypeError | FileNotFound

record instruction =
  operation :: string
  operands :: "string list"

text \<open>\<^verbatim>\<open>RegisterFile\<close>: two parallel lists, both built with \<open>num_registers\<close> elements.\<close>

record register_file =
  reg_values :: "int list"
  reg_status :: "string option list"

text \<open>One element of \<^verbatim>\<open>ReservationStation.stations\<close> (a dict in the source).\<close>

record station =
  busy :: bool
  op :: "string option"
  Vj :: "int option"
  Vk :: "int option"
  Qj :: "string option"
  Qk :: "string option"
  cycles_left :: int
  result :: "int option"

record reservation_station =
  name :: string
  num_stations :: nat
  execution_cycles :: int
  stations :: "station list"

datatype rob_state = Issue | Write | Commit

record rob_entry =
  rob_busy :: bool
  rob_instruction :: "string option"
  rob_state :: rob_state
  rob_result :: "int option"

text \<open>One dict of \<^verbatim>\<open>instruction_metadata\<close>; a key that is absent is \<open>None\<close>.\<close>

record meta =
  m_instruction :: string
  m_issued :: int
  start_exec :: "int option"
  finish_exec :: "int option"
  write_exec :: "int option"
  commit :: "int option"

text \<open>
  One value of \<^verbatim>\<open>dependency_table\<close>: the dict \<^verbatim>\<open>{"R": ..., "W": ...}\<close>. The table
  itself has exactly the keys \<^verbatim>\<open>R0 .. R7\<close> and is modelled as the list of its values in
  key order, so that the key \<^verbatim>\<open>f"R{i}"\<close> exists iff \<open>0 \<le> i < length\<close>.
\<close>

record dep_entry =
  dep_R :: "instruction option"
  dep_W :: "string option"

text \<open>The variables of the \<^verbatim>\<open>__main__\<close> block.\<close>

record sim =
  dependency_table :: "dep_entry list"
  regs :: register_file
  reorder_buffer :: "rob_entry list"
  instruction_queue :: "instruction list"
  stalled_queue :: "instruction list"
  load_station :: reservation_station
  add_station :: reservation_station
  store_station :: reservation_station
  mult_station :: reservation_station
  branch_station :: reservation_station
  call_ret_station :: reservation_station
  nand_station :: reservation_station
  current_cycle :: int
  instruction_metadata :: "meta list"

section \<open>Strings and parsing\<close>

text \<open>The ASCII characters for which \<^verbatim>\<open>str.isspace\<close> holds.\<close>

definition is_space :: "char \<Rightarrow> bool" where
  "is_space c = (of_char c \<in> {9, 10, 11, 12, 13, 28, 29, 30, 31, 32 :: nat})"

definition strip_chars :: "(char \<Rightarrow> bool) \<Rightarrow> string \<Rightarrow> string" where
  "strip_chars p s = rev (dropWhile p (rev (dropWhile p s)))"

definition py_strip :: "string \<Rightarrow> string" where
  "py_strip s = strip_chars is_space s"

text \<open>\<^verbatim>\<open>str.split()\<close> without argument: the maximal runs of non-space characters.\<close>

fun split_ws :: "string \<Rightarrow> string \<Rightarrow> string list" where
  "split_ws acc [] = (if acc = [] then [] else [rev acc])"
| "split_ws acc (c # cs) =
     (if is_space c then (if acc = [] then split_ws [] cs else rev acc # split_ws [] cs)
      else split_ws (c # acc) cs)"

definition py_split :: "string \<Rightarrow> string list" where
  "py_split s = split_ws [] s"

text \<open>\<^verbatim>\<open>str.split(sep)\<close> for a one-character separator: empty pieces are kept.\<close>

fun split_on :: "char \<Rightarrow> string \<Rightarrow> string \<Rightarrow> string list" where
  "split_on sep acc [] = [rev acc]"
| "split_on sep acc (c # cs) =
     (if c = sep then rev acc # split_on sep [] cs else split_on sep (c # acc) cs)"

definition is_digit :: "char \<Rightarrow> bool" where
  "is_digit c = (48 \<le> (of_char c :: nat) \<and> (of_char c :: nat) \<le> 57)"

text \<open>
  The digits of a decimal literal as \<^verbatim>\<open>int()\<close> accepts them: at least one digit, single
  underscores only between digits. \<open>prev\<close> says that the previous character was a digit.
\<close>

fun parse_digits :: "bool \<Rightarrow> nat \<Rightarrow> string \<Rightarrow> nat option" where
  "parse_digits prev acc [] = (if prev then Some acc else None)"
| "parse_digits prev acc (c # cs) =
     (if is_digit c then parse_digits True (acc * 10 + (of_char c - 48)) cs
      else if c = CHR ''_'' \<and> prev then parse_digits False acc cs
      else None)"

text \<open>\<^verbatim>\<open>int(s)\<close> on ASCII text; \<open>None\<close> is the \<^verbatim>\<open>ValueError\<close>.\<close>

definition py_int :: "string \<Rightarrow> int option" where
  "py_int s =
     (case py_strip s of
        [] \<Rightarrow> None
      | c # cs \<Rightarrow>
          if c = CHR ''-'' then map_option (\<lambda>n. - int n) (parse_digits False 0 cs)
          else if c = CHR ''+'' then map_option int (parse_digits False 0 cs)
          else map_option int (parse_digits False 0 (c # cs)))"

text \<open>\<^verbatim>\<open>xs[i]\<close> for a Python list: negative indices count from the end.\<close>

definition py_index :: "'a list \<Rightarrow> int \<Rightarrow> nat option" where
  "py_index xs i =
     (let n = int (length xs); j = (if i < 0 then n + i else i)
      in if 0 \<le> j \<and> j < n then Some (nat j) else None)"

definition parse_instruction :: "string \<Rightarrow> py_error + instruction" where
  "parse_instruction line =
     (case py_split (py_strip line) of
        [] \<Rightarrow> Inl IndexError
      | p # ps \<Rightarrow>
          Inr \<lparr>operation = p,
               operands = map (strip_chars (\<lambda>c. c = CHR '','')) ps\<rparr>)"

text \<open>
  \<^verbatim>\<open>load_program\<close> on the lines of the file, \<open>None\<close> when the file does not exist
  (the source prints a message and exits).
\<close>

fun load_lines :: "string list \<Rightarrow> py_error + instruction list" where
  "load_lines [] = Inr []"
| "load_lines (line # rest) =
     (if py_strip line \<noteq> [] then
        (case parse_instruction line of
           Inl e \<Rightarrow> Inl e
         | Inr i \<Rightarrow> (case load_lines rest of Inl e \<Rightarrow> Inl e | Inr is \<Rightarrow> Inr (i # is)))
      else load_lines rest)"

definition load_program :: "string list option \<Rightarrow> py_error + instruction list" where
  "load_program file = (case file of None \<Rightarrow> Inl FileNotFound | Some ls \<Rightarrow> load_lines ls)"

section \<open>Reservation stations and the reorder buffer\<close>

definition idle_station :: station where
  "idle_station =
     \<lparr>busy = False, op = None, Vj = None, Vk = None, Qj = None, Qk = None,
      cycles_left = 0, result = None\<rparr>"

text \<open>\<^verbatim>\<open>ReservationStation(name, num_stations, execution_cycles)\<close>.\<close>

definition ReservationStation :: "string \<Rightarrow> nat \<Rightarrow> int \<Rightarrow> reservation_station" where
  "ReservationStation nm n cyc =
     \<lparr>name = nm, num_stations = n, execution_cycles = cyc,
      stations = replicate n idle_station\<rparr>"

definition is_available :: "reservation_station \<Rightarrow> bool" where
  "is_available p = list_ex (\<lambda>st. \<not> busy st) (stations p)"

text \<open>The loop of \<^verbatim>\<open>allocate\<close>: the first station that is not busy is overwritten.\<close>

fun alloc_first :: "(station \<Rightarrow> station) \<Rightarrow> station list \<Rightarrow> station list option" where
  "alloc_first f [] = None"
| "alloc_first f (st # sts) =
     (if \<not> busy st then Some (f st # sts)
      else map_option ((#) st) (alloc_first f sts))"

text \<open>
  \<^verbatim>\<open>allocate\<close> returns the station it took, or \<open>None\<close>; the model returns the pool as
  the call leaves it, \<open>None\<close> when every station is busy.
\<close>

definition allocate ::
  "reservation_station \<Rightarrow> string \<Rightarrow> int option \<Rightarrow> int option \<Rightarrow> string option \<Rightarrow>
   string option \<Rightarrow> reservation_station option" where
  "allocate p opn vj vk qj qk =
     map_option (\<lambda>sts. p\<lparr>stations := sts\<rparr>)
       (alloc_first
          (\<lambda>st. st\<lparr>busy := True, op := Some opn, Vj := vj, Vk := vk, Qj := qj, Qk := qk,
                    cycles_left := execution_cycles p\<rparr>)
          (stations p))"

text \<open>
  \<^verbatim>\<open>ReservationStation.execute\<close> (no caller in the file): the stations as the call leaves
  them, and the station it returns.
\<close>

fun execute :: "station list \<Rightarrow> station list \<times> station option" where
  "execute [] = ([], None)"
| "execute (st # sts) =
     (if busy st \<and> cycles_left st > 0 then
        (let st1 = st\<lparr>cycles_left := cycles_left st - 1\<rparr> in
         if cycles_left st1 = 0 then
           (st1\<lparr>result := Some 42\<rparr> # sts, Some (st1\<lparr>result := Some 42\<rparr>))
         else (case execute sts of (sts', r) \<Rightarrow> (st1 # sts', r)))
      else (case execute sts of (sts', r) \<Rightarrow> (st # sts', r)))"

definition release :: "station \<Rightarrow> station" where
  "release st =
     st\<lparr>busy := False, op := None, Vj := None, Vk := None, Qj := None, Qk := None,
        cycles_left := 0\<rparr>"

text \<open>\<^verbatim>\<open>ReorderBuffer(size)\<close>.\<close>

definition ReorderBuffer :: "nat \<Rightarrow> rob_entry list" where
  "ReorderBuffer n =
     replicate n \<lparr>rob_busy = False, rob_instruction = None, rob_state = Issue,
                  rob_result = None\<rparr>"

text \<open>
  \<^verbatim>\<open>ReorderBuffer.add\<close>: the index of the entry taken and the entries afterwards, or
  \<open>None\<close> when every entry is busy.
\<close>

fun rob_add :: "string option \<Rightarrow> rob_entry list \<Rightarrow> (nat \<times> rob_entry list) option" where
  "rob_add i [] = None"
| "rob_add i (e # es) =
     (if \<not> rob_busy e then
        Some (0, e\<lparr>rob_busy := True, rob_instruction := i, rob_state := Issue,
                    rob_result := None\<rparr> # es)
      else map_option (\<lambda>(k, es'). (Suc k, e # es')) (rob_add i es))"

text \<open>
  The loops \<^verbatim>\<open>for entry in metadata: if ...: entry[key] = current_cycle; break\<close>: the
  first record that satisfies \<open>p\<close> is updated by \<open>f\<close>.
\<close>

fun mark_first :: "('a \<Rightarrow> bool) \<Rightarrow> ('a \<Rightarrow> 'a) \<Rightarrow> 'a list \<Rightarrow> 'a list" where
  "mark_first p f [] = []"
| "mark_first p f (m # ms) = (if p m then f m # ms else m # mark_first p f ms)"

text \<open>\<^verbatim>\<open>ReorderBuffer.commit\<close>: the value returned, the entries and the metadata.\<close>

fun rob_commit :: "int \<Rightarrow> meta list \<Rightarrow> rob_entry list \<Rightarrow> bool \<times> rob_entry list \<times> meta list" where
  "rob_commit c md [] = (False, [], md)"
| "rob_commit c md (e # es) =
     (if rob_busy e \<and> rob_state e = Write then
        (True, e\<lparr>rob_busy := False, rob_state := Commit\<rparr> # es,
         mark_first (\<lambda>m. Some (m_instruction m) = rob_instruction e \<and> commit m = None)
           (\<lambda>m. m\<lparr>commit := Some c\<rparr>) md)
      else (case rob_commit c md es of (b, es', md') \<Rightarrow> (b, e # es', md')))"

section \<open>Operand resolution\<close>

text \<open>
  \<^verbatim>\<open>is_ready(reg_index)\<close> followed by \<^verbatim>\<open>get_value(reg_index)\<close> or by the read of the
  status: the pair (value, tag) for one register.
\<close>

definition resolve_reg :: "register_file \<Rightarrow> int \<Rightarrow> py_error + (int option \<times> string option)" where
  "resolve_reg rf i =
     (case py_index (reg_status rf) i of
        None \<Rightarrow> Inl IndexError
      | Some k \<Rightarrow>
          if reg_status rf ! k = None then
            (case py_index (reg_values rf) i of
               None \<Rightarrow> Inl IndexError
             | Some k' \<Rightarrow> Inr (Some (reg_values rf ! k'), None))
          else Inr (None, reg_status rf ! k))"

text \<open>The branch for \<^verbatim>\<open>offset(Rn)\<close>: \<^verbatim>\<open>int(offset)\<close> is evaluated only for a ready register.\<close>

definition resolve_displaced ::
  "register_file \<Rightarrow> string \<Rightarrow> py_error + (int option \<times> string option)" where
  "resolve_displaced rf operand =
     (case split_on CHR ''('' [] operand of
        [offset, reg] \<Rightarrow>
          (case py_int (drop 1 (strip_chars (\<lambda>c. c = CHR '')'') reg)) of
             None \<Rightarrow> Inl ValueError
           | Some i \<Rightarrow>
               (case resolve_reg rf i of
                  Inl e \<Rightarrow> Inl e
                | Inr (Some v, q) \<Rightarrow>
                    (case py_int offset of
                       None \<Rightarrow> Inl ValueError
                     | Some off \<Rightarrow> Inr (Some (v + off), q))
                | Inr (None, q) \<Rightarrow> Inr (None, q)))
      | _ \<Rightarrow> Inl ValueError)"

type_synonym resolved = "int option \<times> int option \<times> string option \<times> string option"

definition resolve_operands :: "register_file \<Rightarrow> string list \<Rightarrow> py_error + resolved" where
  "resolve_operands rf ops =
     (case ops of
        [] \<Rightarrow> Inl IndexError
      | o0 # _ \<Rightarrow>
          (case py_int (drop 1 o0) of
             None \<Rightarrow> Inl ValueError
           | Some i \<Rightarrow>
               (case resolve_reg rf i of
                  Inl e \<Rightarrow> Inl e
                | Inr (vj, qj) \<Rightarrow>
                    if length ops > 1 then
                      (let operand = ops ! 1 in
                       if CHR ''('' \<in> set operand then
                         (case resolve_displaced rf operand of
                            Inl e \<Rightarrow> Inl e
                          | Inr (vk, qk) \<Rightarrow> Inr (vj, vk, qj, qk))
                       else
                         (case py_int (drop 1 operand) of
                            None \<Rightarrow> Inl ValueError
                          | Some i2 \<Rightarrow>
                              (case resolve_reg rf i2 of
                                 Inl e \<Rightarrow> Inl e
                               | Inr (vk, qk) \<Rightarrow> Inr (vj, vk, qj, qk))))
                    else Inr (vj, None, qj, None))))"

section \<open>Issue\<close>

text \<open>\<^verbatim>\<open>a in b\<close> on strings: \<open>a\<close> occurs in \<open>b\<close> as a contiguous piece.\<close>

fun py_in :: "string \<Rightarrow> string \<Rightarrow> bool" where
  "py_in xs [] = (xs = [])"
| "py_in xs (y # ys) = (take (length xs) (y # ys) = xs \<or> py_in xs ys)"

text \<open>
  \<^verbatim>\<open>station = pool.allocate(...)\<close> in the main block: the result is not looked at, so
  the pool is as the call leaves it.
\<close>

definition allocated ::
  "reservation_station \<Rightarrow> instruction \<Rightarrow> resolved \<Rightarrow> reservation_station" where
  "allocated p instr r =
     (case r of (vj, vk, qj, qk) \<Rightarrow>
        (case allocate p (operation instr) vj vk qj qk of None \<Rightarrow> p | Some p' \<Rightarrow> p'))"

text \<open>
  The three statements after the allocation of a LOAD or an ADD:
  \<^verbatim>\<open>reg_index = int(instr.operands[0][1:])\<close>,
  \<^verbatim>\<open>register_file.set_status(reg_index, tag)\<close> and
  \<^verbatim>\<open>dependency_table[f"R{reg_index}"]["W"] = instr.operation\<close>.
\<close>

definition set_dest :: "string \<Rightarrow> instruction \<Rightarrow> sim \<Rightarrow> py_error + sim" where
  "set_dest tag instr s =
     (case operands instr of
        [] \<Rightarrow> Inl IndexError
      | o0 # _ \<Rightarrow>
          (case py_int (drop 1 o0) of
             None \<Rightarrow> Inl ValueError
           | Some i \<Rightarrow>
               (case py_index (reg_status (regs s)) i of
                  None \<Rightarrow> Inl IndexError
                | Some k \<Rightarrow>
                    if 0 \<le> i \<and> i < int (length (dependency_table s)) then
                      Inr (s\<lparr>regs := (regs s)\<lparr>reg_status := (reg_status (regs s))[k := Some tag]\<rparr>,
                             dependency_table :=
                               (dependency_table s)
                                 [nat i := (dependency_table s ! nat i)
                                    \<lparr>dep_W := Some (operation instr)\<rparr>]\<rparr>)
                    else Inl KeyError)))"

text \<open>\<^verbatim>\<open>instruction_metadata.append({"instruction": ..., "issued": current_cycle})\<close>.\<close>

definition append_meta :: "instruction \<Rightarrow> sim \<Rightarrow> sim" where
  "append_meta instr s =
     s\<lparr>instruction_metadata :=
         instruction_metadata s @
           [\<lparr>m_instruction = operation instr, m_issued = current_cycle s,
             start_exec = None, finish_exec = None, write_exec = None, commit = None\<rparr>]\<rparr>"

text \<open>
  The \<^verbatim>\<open>if/elif\<close> chain of the fetch step (lines 329 to 362): whether the instruction
  was issued, and the state.
\<close>

definition issue_fetched :: "instruction \<Rightarrow> resolved \<Rightarrow> sim \<Rightarrow> py_error + (bool \<times> sim)" where
  "issue_fetched instr r s =
     (case r of (vj, vk, qj, qk) \<Rightarrow>
      if operation instr = ''LOAD'' \<and> is_available (load_station s) \<and> qj = None \<and> qk = None then
        (case set_dest ''LOAD'' instr (s\<lparr>load_station := allocated (load_station s) instr r\<rparr>) of
           Inl e \<Rightarrow> Inl e
         | Inr s' \<Rightarrow> Inr (True, append_meta instr s'))
      else if operation instr = ''STORE'' \<and> is_available (store_station s) \<and> qj = None \<and> qk = None then
        Inr (True, append_meta instr (s\<lparr>store_station := allocated (store_station s) instr r\<rparr>))
      else if operation instr \<in> set [''ADD'', ''ADDI''] \<and> is_available (add_station s)
              \<and> qj = None \<and> qk = None then
        (case set_dest ''ADD'' instr (s\<lparr>add_station := allocated (add_station s) instr r\<rparr>) of
           Inl e \<Rightarrow> Inl e
         | Inr s' \<Rightarrow> Inr (True, append_meta instr s'))
      else if operation instr = ''MULT'' \<and> is_available (mult_station s) \<and> qj = None \<and> qk = None then
        Inr (True, append_meta instr (s\<lparr>mult_station := allocated (mult_station s) instr r\<rparr>))
      else if operation instr = ''BEQ'' \<and> is_available (branch_station s) \<and> qj = None \<and> qk = None then
        Inr (True, append_meta instr (s\<lparr>branch_station := allocated (branch_station s) instr r\<rparr>))
      else if operation instr \<in> set [''CALL'', ''RET''] \<and> is_available (call_ret_station s)
              \<and> qj = None \<and> qk = None then
        Inr (True, append_meta instr (s\<lparr>call_ret_station := allocated (call_ret_station s) instr r\<rparr>))
      else if py_in (operation instr) ''NAND'' \<and> is_available (nand_station s)
              \<and> qj = None \<and> qk = None then
        Inr (True, append_meta instr (s\<lparr>nand_station := allocated (nand_station s) instr r\<rparr>))
      else Inr (False, s))"

text \<open>
  The chain of the retry step (lines 284 to 317). Its last branch calls the pool object
  itself, \<^verbatim>\<open>nand_station(op=...)\<close>, which raises \<^verbatim>\<open>TypeError\<close>.
\<close>

definition issue_stalled :: "instruction \<Rightarrow> resolved \<Rightarrow> sim \<Rightarrow> py_error + (bool \<times> sim)" where
  "issue_stalled instr r s =
     (case r of (vj, vk, qj, qk) \<Rightarrow>
      if operation instr = ''LOAD'' \<and> is_available (load_station s) \<and> qj = None \<and> qk = None then
        (case set_dest ''LOAD'' instr (s\<lparr>load_station := allocated (load_station s) instr r\<rparr>) of
           Inl e \<Rightarrow> Inl e
         | Inr s' \<Rightarrow> Inr (True, append_meta instr s'))
      else if operation instr = ''STORE'' \<and> is_available (store_station s) \<and> qj = None \<and> qk = None then
        Inr (True, append_meta instr (s\<lparr>store_station := allocated (store_station s) instr r\<rparr>))
      else if operation instr \<in> set [''ADD'', ''ADDI''] \<and> is_available (add_station s)
              \<and> qj = None \<and> qk = None then
        (case set_dest ''ADD'' instr (s\<lparr>add_station := allocated (add_station s) instr r\<rparr>) of
           Inl e \<Rightarrow> Inl e
         | Inr s' \<Rightarrow> Inr (True, append_meta instr s'))
      else if operation instr = ''MULT'' \<and> is_available (mult_station s) \<and> qj = None \<and> qk = None then
        Inr (True, append_meta instr (s\<lparr>mult_station := allocated (mult_station s) instr r\<rparr>))
      else if operation instr = ''BEQ'' \<and> is_available (branch_station s) \<and> qj = None \<and> qk = None then
        Inr (True, append_meta instr (s\<lparr>branch_station := allocated (branch_station s) instr r\<rparr>))
      else if operation instr \<in> set [''CALL'', ''RET''] \<and> is_available (call_ret_station s)
              \<and> qj = None \<and> qk = None then
        Inr (True, append_meta instr (s\<lparr>call_ret_station := allocated (call_ret_station s) instr r\<rparr>))
      else if py_in (operation instr) ''NAND'' \<and> is_available (nand_station s)
              \<and> qj = None \<and> qk = None then
        Inl TypeError
      else Inr (False, s))"

text \<open>
  The loop over \<^verbatim>\<open>stalled_queue\<close> (lines 280 to 320): the list
  \<^verbatim>\<open>remaining_stalled\<close> and the state.
\<close>

fun retry_stalled :: "instruction list \<Rightarrow> sim \<Rightarrow> py_error + (instruction list \<times> sim)" where
  "retry_stalled [] s = Inr ([], s)"
| "retry_stalled (instr # rest) s =
     (case resolve_operands (regs s) (operands instr) of
        Inl e \<Rightarrow> Inl e
      | Inr r \<Rightarrow>
          (case issue_stalled instr r s of
             Inl e \<Rightarrow> Inl e
           | Inr (issued, s') \<Rightarrow>
               (case retry_stalled rest s' of
                  Inl e \<Rightarrow> Inl e
                | Inr (remaining, s'') \<Rightarrow>
                    Inr (if issued then remaining else instr # remaining, s''))))"

text \<open>The fetch step (lines 324 to 365).\<close>

definition fetch_issue :: "sim \<Rightarrow> py_error + sim" where
  "fetch_issue s =
     (case instruction_queue s of
        [] \<Rightarrow> Inr s
      | instr # rest \<Rightarrow>
          (let s1 = s\<lparr>instruction_queue := rest\<rparr> in
           case resolve_operands (regs s1) (operands instr) of
             Inl e \<Rightarrow> Inl e
           | Inr r \<Rightarrow>
               (case issue_fetched instr r s1 of
                  Inl e \<Rightarrow> Inl e
                | Inr (issued, s2) \<Rightarrow>
                    Inr (if issued then s2
                         else s2\<lparr>stalled_queue := stalled_queue s2 @ [instr]\<rparr>))))"

section \<open>Execution, write-back and commit\<close>

text \<open>
  The objects that \<^verbatim>\<open>execute_and_commit\<close> mutates besides the pool: the register file,
  the reorder buffer, the metadata and the dependency table.
\<close>

record env =
  e_regs :: register_file
  e_rob :: "rob_entry list"
  e_meta :: "meta list"
  e_dep :: "dep_entry list"

text \<open>
  The inner loop over \<^verbatim>\<open>stalled_queue\<close> (lines 200 to 202). The source compares the
  \<^verbatim>\<open>"R"\<close> value with the instruction object; nothing ever stores an instruction there.
\<close>

definition clear_R :: "instruction list \<Rightarrow> dep_entry \<Rightarrow> dep_entry" where
  "clear_R stalled d =
     fold (\<lambda>i d. if dep_R d = Some i then d\<lparr>dep_R := None\<rparr> else d) stalled d"

text \<open>
  One iteration of \<^verbatim>\<open>for reg_index, status in enumerate(register_file.status)\<close>
  (lines 191 to 202). The three containers have one element per register.
\<close>

definition wb_reg ::
  "string \<Rightarrow> instruction list \<Rightarrow> nat \<Rightarrow> register_file \<times> dep_entry list \<Rightarrow>
   register_file \<times> dep_entry list" where
  "wb_reg nm stalled i rd =
     (case rd of (rf, dep) \<Rightarrow>
        if reg_status rf ! i = Some nm then
          (rf\<lparr>reg_values := (reg_values rf)[i := 42],
              reg_status := (reg_status rf)[i := None]\<rparr>,
           dep[i := clear_R stalled ((dep ! i)\<lparr>dep_W := None\<rparr>)])
        else (rf, dep))"

definition write_back ::
  "string \<Rightarrow> instruction list \<Rightarrow> register_file \<times> dep_entry list \<Rightarrow>
   register_file \<times> dep_entry list" where
  "write_back nm stalled rd =
     fold (wb_reg nm stalled) [0 ..< length (reg_status (fst rd))] rd"

definition set_start :: "string option \<Rightarrow> int \<Rightarrow> meta list \<Rightarrow> meta list" where
  "set_start opn c md =
     mark_first (\<lambda>m. Some (m_instruction m) = opn \<and> start_exec m = None)
       (\<lambda>m. m\<lparr>start_exec := Some c\<rparr>) md"

definition set_finish :: "string option \<Rightarrow> int \<Rightarrow> meta list \<Rightarrow> meta list" where
  "set_finish opn c md =
     mark_first (\<lambda>m. Some (m_instruction m) = opn \<and> finish_exec m = None)
       (\<lambda>m. m\<lparr>finish_exec := Some c\<rparr>) md"

definition set_write :: "string option \<Rightarrow> int \<Rightarrow> meta list \<Rightarrow> meta list" where
  "set_write opn c md =
     mark_first (\<lambda>m. Some (m_instruction m) = opn \<and> write_exec m = None)
       (\<lambda>m. m\<lparr>write_exec := Some c\<rparr>) md"

text \<open>Lines 190 to 214: what happens when a station's count reaches zero.\<close>

definition complete ::
  "string \<Rightarrow> int \<Rightarrow> instruction list \<Rightarrow> station \<Rightarrow> env \<Rightarrow> station \<times> env" where
  "complete nm c stalled st e =
     (let md = set_finish (op st) c (e_meta e);
          rd = write_back nm stalled (e_regs e, e_dep e);
          rm = (case rob_add (op st) (e_rob e) of
                  None \<Rightarrow> (e_rob e, md)
                | Some (k, rob) \<Rightarrow>
                    (rob[k := (rob ! k)\<lparr>rob_state := Write\<rparr>], set_write (op st) c md))
      in (release st,
          \<lparr>e_regs = fst rd, e_rob = fst rm, e_meta = snd rm, e_dep = snd rd\<rparr>))"

text \<open>The body of \<^verbatim>\<open>for station in reservation_station.stations\<close> (lines 168 to 214).\<close>

definition exec_station ::
  "string \<Rightarrow> int \<Rightarrow> int \<Rightarrow> instruction list \<Rightarrow> station \<Rightarrow> env \<Rightarrow> station \<times> env" where
  "exec_station nm ec c stalled st e =
     (if busy st then
        if Qj st \<noteq> None \<or> Qk st \<noteq> None then (st, e)
        else
          (let e1 = (if cycles_left st = ec
                     then e\<lparr>e_meta := set_start (op st) c (e_meta e)\<rparr> else e);
               st1 = st\<lparr>cycles_left := cycles_left st - 1\<rparr>
           in if cycles_left st1 = 0 then complete nm c stalled st1 e1 else (st1, e1))
      else (st, e))"

fun exec_stations ::
  "string \<Rightarrow> int \<Rightarrow> int \<Rightarrow> instruction list \<Rightarrow> station list \<Rightarrow> env \<Rightarrow> station list \<times> env" where
  "exec_stations nm ec c stalled [] e = ([], e)"
| "exec_stations nm ec c stalled (st # sts) e =
     (case exec_station nm ec c stalled st e of
        (st', e') \<Rightarrow>
          (case exec_stations nm ec c stalled sts e' of
             (sts', e'') \<Rightarrow> (st' # sts', e'')))"

definition execute_and_commit ::
  "reservation_station \<Rightarrow> int \<Rightarrow> instruction list \<Rightarrow> env \<Rightarrow> reservation_station \<times> env" where
  "execute_and_commit p c stalled e =
     (case exec_stations (name p) (execution_cycles p) c stalled (stations p) e of
        (sts, e') \<Rightarrow> (p\<lparr>stations := sts\<rparr>, e'))"

section \<open>The scheduler loop\<close>

definition env_of :: "sim \<Rightarrow> env" where
  "env_of s =
     \<lparr>e_regs = regs s, e_rob = reorder_buffer s, e_meta = instruction_metadata s,
      e_dep = dependency_table s\<rparr>"

definition with_env :: "env \<Rightarrow> sim \<Rightarrow> sim" where
  "with_env e s =
     s\<lparr>regs := e_regs e, reorder_buffer := e_rob e, instruction_metadata := e_meta e,
       dependency_table := e_dep e\<rparr>"

text \<open>The seven calls of \<^verbatim>\<open>execute_and_commit\<close> (lines 368 to 374), in their order.\<close>

definition execute_all :: "sim \<Rightarrow> sim" where
  "execute_all s =
     (let c = current_cycle s; q = stalled_queue s; e0 = env_of s in
      case execute_and_commit (load_station s) c q e0 of (p1, e1) \<Rightarrow>
      case execute_and_commit (add_station s) c q e1 of (p2, e2) \<Rightarrow>
      case execute_and_commit (store_station s) c q e2 of (p3, e3) \<Rightarrow>
      case execute_and_commit (mult_station s) c q e3 of (p4, e4) \<Rightarrow>
      case execute_and_commit (branch_station s) c q e4 of (p5, e5) \<Rightarrow>
      case execute_and_commit (call_ret_station s) c q e5 of (p6, e6) \<Rightarrow>
      case execute_and_commit (nand_station s) c q e6 of (p7, e7) \<Rightarrow>
        with_env e7
          (s\<lparr>load_station := p1, add_station := p2, store_station := p3, mult_station := p4,
             branch_station := p5, call_ret_station := p6, nand_station := p7\<rparr>))"

definition commit_step :: "sim \<Rightarrow> sim" where
  "commit_step s =
     (case rob_commit (current_cycle s) (instruction_metadata s) (reorder_buffer s) of
        (b, rob, md) \<Rightarrow> s\<lparr>reorder_buffer := rob, instruction_metadata := md\<rparr>)"

text \<open>One pass through the body of the \<^verbatim>\<open>while\<close> loop (lines 277 to 380).\<close>

definition cycle :: "sim \<Rightarrow> py_error + sim" where
  "cycle s =
     (case retry_stalled (stalled_queue s) s of
        Inl e \<Rightarrow> Inl e
      | Inr (remaining, s1) \<Rightarrow>
          (case fetch_issue (s1\<lparr>stalled_queue := remaining\<rparr>) of
             Inl e \<Rightarrow> Inl e
           | Inr s2 \<Rightarrow>
               (let s3 = commit_step (execute_all s2)
                in Inr (s3\<lparr>current_cycle := current_cycle s3 + 1\<rparr>))))"

definition pools :: "sim \<Rightarrow> reservation_station list" where
  "pools s =
     [load_station s, add_station s, store_station s, mult_station s, branch_station s,
      call_ret_station s, nand_station s]"

text \<open>The condition of the \<^verbatim>\<open>while\<close> loop (lines 273 to 276).\<close>

definition loop_cond :: "sim \<Rightarrow> bool" where
  "loop_cond s =
     (instruction_queue s \<noteq> [] \<or> stalled_queue s \<noteq> [] \<or>
      list_ex (\<lambda>p. list_ex busy (stations p)) (pools s))"

text \<open>The state built by lines 250 to 271 from the loaded program.\<close>

definition REGISTER_COUNT :: nat where
  "REGISTER_COUNT = 8"

definition initial :: "instruction list \<Rightarrow> sim" where
  "initial program =
     \<lparr>dependency_table = replicate REGISTER_COUNT \<lparr>dep_R = None, dep_W = None\<rparr>,
      regs = \<lparr>reg_values = replicate REGISTER_COUNT 0,
               reg_status = replicate REGISTER_COUNT None\<rparr>,
      reorder_buffer = ReorderBuffer 6,
      instruction_queue = program,
      stalled_queue = [],
      load_station = ReservationStation ''LOAD'' 2 6,
      add_station = ReservationStation ''ADD/ADDI'' 4 2,
      store_station = ReservationStation ''STORE'' 1 6,
      mult_station = ReservationStation ''MULT'' 1 8,
      branch_station = ReservationStation ''BEQ'' 2 3,
      call_ret_station = ReservationStation ''CALL/RET'' 2 4,
      nand_station = ReservationStation ''NAND'' 2 1,
      current_cycle = 1,
      instruction_metadata = []\<rparr>"

text \<open>
  The \<^verbatim>\<open>while\<close> loop: \<open>None\<close> when it runs forever, \<open>Some (Inl e)\<close> when an
  exception leaves it, \<open>Some (Inr s)\<close> when its condition becomes false in state \<open>s\<close>.
\<close>

partial_function (option) main_loop :: "sim \<Rightarrow> (py_error + sim) option" where
  "main_loop s =
     (if loop_cond s then
        (case cycle s of Inl e \<Rightarrow> Some (Inl e) | Inr s' \<Rightarrow> main_loop s')
      else Some (Inr s))"

text \<open>The main block up to the end of the loop, on the lines of the program file.\<close>

definition main :: "string list option \<Rightarrow> (py_error + sim) option" where
  "main file =
     (case load_program file of
        Inl e \<Rightarrow> Some (Inl e)
      | Inr program \<Rightarrow> main_loop (initial program))"

text \<open>
  The states at the top of the loop: \<open>reachable program s\<close> holds when the loop, started
  on \<open>program\<close>, evaluates its condition in state \<open>s\<close>.
\<close>

inductive reachable :: "instruction list \<Rightarrow> sim \<Rightarrow> bool" for program where
  start: "reachable program (initial program)"
| step: "reachable program s \<Longrightarrow> loop_cond s \<Longrightarrow> cycle s = Inr s' \<Longrightarrow> reachable program s'"

text \<open>
  \<open>run_cycles n s\<close> runs the loop from \<open>s\<close> for at most \<open>n\<close> passes: the state in which
  it stops or in which the passes are used up.
\<close>

fun run_cycles :: "nat \<Rightarrow> sim \<Rightarrow> py_error + sim" where
  "run_cycles 0 s = Inr s"
| "run_cycles (Suc n) s =
     (if loop_cond s then
        (case cycle s of Inl e \<Rightarrow> Inl e | Inr s' \<Rightarrow> run_cycles n s')
      else Inr s)"

section \<open>Notions used in the statements and proofs\<close>

text \<open>
  The register file after one write-back for the pool name \<open>nm\<close>: every register whose
  status is \<open>nm\<close> holds 42 and is ready, the others are as before.
\<close>

definition written :: "string \<Rightarrow> register_file \<Rightarrow> register_file" where
  "written nm rf =
     \<lparr>reg_values = map (\<lambda>i. if reg_status rf ! i = Some nm then 42 else reg_values rf ! i)
                     [0 ..< length (reg_values rf)],
      reg_status = map (\<lambda>t. if t = Some nm then None else t) (reg_status rf)\<rparr>"

text \<open>A station that reaches zero in the next call of \<^verbatim>\<open>execute_and_commit\<close>.\<close>

definition completes :: "station \<Rightarrow> bool" where
  "completes st = (busy st \<and> Qj st = None \<and> Qk st = None \<and> cycles_left st = 1)"

text \<open>
  Two loads with different destinations, and the load pool and the register file at the
  top of the sixth pass of the loop.
\<close>

definition two_loads :: "instruction list" where
  "two_loads =
     [\<lparr>operation = ''LOAD'', operands = [''R1'', ''0(R2)'']\<rparr>,
      \<lparr>operation = ''LOAD'', operands = [''R3'', ''0(R2)'']\<rparr>]"

definition example_pool :: reservation_station where
  "example_pool =
     \<lparr>name = ''LOAD'', num_stations = 2, execution_cycles = 6,
      stations =
        [\<lparr>busy = True, op = Some ''LOAD'', Vj = Some 0, Vk = Some 0, Qj = None, Qk = None,
          cycles_left = 1, result = None\<rparr>,
         \<lparr>busy = True, op = Some ''LOAD'', Vj = Some 0, Vk = Some 0, Qj = None, Qk = None,
          cycles_left = 2, result = None\<rparr>]\<rparr>"

definition example_regs :: register_file where
  "example_regs =
     \<lparr>reg_values = [0, 0, 0, 0, 0, 0, 0, 0],
      reg_status = [None, Some ''LOAD'', None, Some ''LOAD'', None, None, None, None]\<rparr>"

definition tokens_of :: "string \<Rightarrow> instruction" where
  "tokens_of line =
     \<lparr>operation = hd (py_split (py_strip line)),
      operands = map (strip_chars (\<lambda>c. c = CHR '','')) (tl (py_split (py_strip line)))\<rparr>"

definition written_back :: "rob_entry \<Rightarrow> bool" where
  "written_back e = (rob_busy e \<and> rob_state e = Write)"

definition example_rob :: "rob_entry list" where
  "example_rob =
     [\<lparr>rob_busy = False, rob_instruction = Some ''NAND'', rob_state = Commit, rob_result = None\<rparr>,
      \<lparr>rob_busy = True, rob_instruction = Some ''ADD'', rob_state = Write, rob_result = None\<rparr>,
      \<lparr>rob_busy = True, rob_instruction = Some ''LOAD'', rob_state = Write, rob_result = None\<rparr>]"

definition load_then_add :: "instruction list" where
  "load_then_add =
     [\<lparr>operation = ''LOAD'', operands = [''R1'', ''0(R2)'']\<rparr>,
      \<lparr>operation = ''ADD'', operands = [''R3'', ''R4'']\<rparr>]"

datatype pool_id = PLoad | PAdd | PStore | PMult | PBranch | PCallRet | PNand

fun get_pool :: "pool_id \<Rightarrow> sim \<Rightarrow> reservation_station" where
  "get_pool PLoad s = load_station s"
| "get_pool PAdd s = add_station s"
| "get_pool PStore s = store_station s"
| "get_pool PMult s = mult_station s"
| "get_pool PBranch s = branch_station s"
| "get_pool PCallRet s = call_ret_station s"
| "get_pool PNand s = nand_station s"

fun set_pool :: "pool_id \<Rightarrow> reservation_station \<Rightarrow> sim \<Rightarrow> sim" where
  "set_pool PLoad p s = s\<lparr>load_station := p\<rparr>"
| "set_pool PAdd p s = s\<lparr>add_station := p\<rparr>"
| "set_pool PStore p s = s\<lparr>store_station := p\<rparr>"
| "set_pool PMult p s = s\<lparr>mult_station := p\<rparr>"
| "set_pool PBranch p s = s\<lparr>branch_station := p\<rparr>"
| "set_pool PCallRet p s = s\<lparr>call_ret_station := p\<rparr>"
| "set_pool PNand p s = s\<lparr>nand_station := p\<rparr>"

definition pool_for :: "string \<Rightarrow> pool_id option" where
  "pool_for opn =
     (if opn = ''LOAD'' then Some PLoad
      else if opn = ''STORE'' then Some PStore
      else if opn \<in> set [''ADD'', ''ADDI''] then Some PAdd
      else if opn = ''MULT'' then Some PMult
      else if opn = ''BEQ'' then Some PBranch
      else if opn \<in> set [''CALL'', ''RET''] then Some PCallRet
      else if py_in opn ''NAND'' then Some PNand
      else None)"

definition dest_step :: "pool_id \<Rightarrow> instruction \<Rightarrow> sim \<Rightarrow> py_error + sim" where
  "dest_step pid instr s =
     (if pid = PLoad then set_dest ''LOAD'' instr s
      else if pid = PAdd then set_dest ''ADD'' instr s
      else Inr s)"

definition issued_to :: "pool_id \<Rightarrow> instruction \<Rightarrow> resolved \<Rightarrow> sim \<Rightarrow> sim \<Rightarrow> bool" where
  "issued_to pid instr r s s' =
     (pool_for (operation instr) = Some pid \<and> fst (snd (snd r)) = None \<and> snd (snd (snd r)) = None \<and>
      is_available (get_pool pid s) \<and>
      (\<exists>s0. dest_step pid instr (set_pool pid (allocated (get_pool pid s) instr r) s) = Inr s0 \<and>
            s' = append_meta instr s0))"

definition untagged :: "reservation_station \<Rightarrow> bool" where
  "untagged p = (\<forall>st \<in> set (stations p). busy st \<longrightarrow> Qj st = None \<and> Qk st = None)"

definition new_meta :: "instruction \<Rightarrow> int \<Rightarrow> meta" where
  "new_meta instr c =
     \<lparr>m_instruction = operation instr, m_issued = c,
      start_exec = None, finish_exec = None, write_exec = None, commit = None\<rparr>"

definition all_pool_ids :: "pool_id list" where
  "all_pool_ids = [PLoad, PAdd, PStore, PMult, PBranch, PCallRet, PNand]"


definition sim_inv :: "sim \<Rightarrow> bool" where
  "sim_inv s =
     (length (reg_values (regs s)) = 8 \<and> length (reg_status (regs s)) = 8 \<and>
      set (reg_status (regs s)) \<subseteq> {None, Some ''LOAD'', Some ''ADD''} \<and>
      (\<forall>pid. untagged (get_pool pid s)))"

definition after :: "nat \<Rightarrow> instruction list \<Rightarrow> sim" where
  "after n program =
     (case run_cycles n (initial program) of Inr s \<Rightarrow> s | Inl _ \<Rightarrow> initial program)"

definition regs_ok :: "register_file \<Rightarrow> bool" where
  "regs_ok rf =
     (length (reg_values rf) = 8 \<and> length (reg_status rf) = 8 \<and>
      set (reg_status rf) \<subseteq> {None, Some ''LOAD'', Some ''ADD''})"

definition three_loads :: "instruction list" where
  "three_loads =
     [\<lparr>operation = ''LOAD'', operands = [''R1'', ''0(R0)'']\<rparr>,
      \<lparr>operation = ''LOAD'', operands = [''R2'', ''0(R1)'']\<rparr>,
      \<lparr>operation = ''LOAD'', operands = [''R3'', ''0(R1)'']\<rparr>]"

definition same_dest :: "instruction list" where
  "same_dest =
     [\<lparr>operation = ''LOAD'', operands = [''R1'', ''0(R2)'']\<rparr>,
      \<lparr>operation = ''LOAD'', operands = [''R1'', ''0(R3)'']\<rparr>]"

definition tagged :: "station \<Rightarrow> bool" where
  "tagged st = (Qj st \<noteq> None \<or> Qk st \<noteq> None)"

definition waiting_pool :: reservation_station where
  "waiting_pool =
     \<lparr>name = ''LOAD'', num_stations = 2, execution_cycles = 6,
      stations =
        [\<lparr>busy = True, op = Some ''LOAD'', Vj = Some 0, Vk = Some 0, Qj = None, Qk = None,
          cycles_left = 1, result = None\<rparr>,
         \<lparr>busy = True, op = Some ''LOAD'', Vj = Some 0, Vk = None, Qj = None, Qk = Some ''LOAD'',
          cycles_left = 6, result = None\<rparr>]\<rparr>"

definition two_adds :: "instruction list" where
  "two_adds =
     [\<lparr>operation = ''ADD'', operands = [''R1'', ''R2'']\<rparr>,
      \<lparr>operation = ''ADD'', operands = [''R1'', ''R3'']\<rparr>]"

definition stuck_at :: "int \<Rightarrow> sim" where
  "stuck_at c = (after 2 two_adds)\<lparr>current_cycle := c\<rparr>"

definition unknown_op :: "instruction list" where
  "unknown_op = [\<lparr>operation = ''FOO'', operands = [''R1'']\<rparr>]"

section \<open>Properties\<close>

declare main_loop.simps [code]

lemma wb_reg_status:
  "reg_status (fst (wb_reg nm q k (rf, dep))) =
     (if reg_status rf ! k = Some nm then (reg_status rf)[k := None] else reg_status rf)"
  by (simp add: wb_reg_def)

lemma wb_reg_values:
  "reg_values (fst (wb_reg nm q k (rf, dep))) =
     (if reg_status rf ! k = Some nm then (reg_values rf)[k := 42] else reg_values rf)"
  by (simp add: wb_reg_def)

lemma wb_fold_Suc:
  "fold (wb_reg nm q) [0 ..< Suc k] rd = wb_reg nm q k (fold (wb_reg nm q) [0 ..< k] rd)"
  by simp

lemma wb_fold_lengths:
  "length (reg_status (fst (fold (wb_reg nm q) [0 ..< k] rd))) = length (reg_status (fst rd))
   \<and> length (reg_values (fst (fold (wb_reg nm q) [0 ..< k] rd))) = length (reg_values (fst rd))"
proof (induction k)
  case 0
  then show ?case by simp
next
  case (Suc k)
  obtain rf dep where r: "fold (wb_reg nm q) [0 ..< k] rd = (rf, dep)"
    by (cases "fold (wb_reg nm q) [0 ..< k] rd")
  show ?case using Suc unfolding wb_fold_Suc r by (simp add: wb_reg_status wb_reg_values)
qed

lemma wb_fold_status:
  "i < length (reg_status (fst rd)) \<Longrightarrow>
   reg_status (fst (fold (wb_reg nm q) [0 ..< k] rd)) ! i =
     (if i < k \<and> reg_status (fst rd) ! i = Some nm then None else reg_status (fst rd) ! i)"
proof (induction k)
  case 0
  then show ?case by simp
next
  case (Suc k)
  obtain rf dep where r: "fold (wb_reg nm q) [0 ..< k] rd = (rf, dep)"
    by (cases "fold (wb_reg nm q) [0 ..< k] rd")
  have len: "length (reg_status rf) = length (reg_status (fst rd))"
    using wb_fold_lengths [of nm q k rd] r by simp
  have ih: "reg_status rf ! i =
     (if i < k \<and> reg_status (fst rd) ! i = Some nm then None else reg_status (fst rd) ! i)"
    using Suc r by simp
  have ihk: "k < length (reg_status (fst rd)) \<Longrightarrow> i = k \<Longrightarrow> reg_status rf ! k = reg_status (fst rd) ! k"
    using ih by simp
  show ?case unfolding wb_fold_Suc r using ih ihk len Suc.prems
    by (auto simp: wb_reg_status nth_list_update less_Suc_eq)
qed

lemma wb_fold_values:
  "i < length (reg_values (fst rd)) \<Longrightarrow> length (reg_values (fst rd)) = length (reg_status (fst rd)) \<Longrightarrow>
   reg_values (fst (fold (wb_reg nm q) [0 ..< k] rd)) ! i =
     (if i < k \<and> reg_status (fst rd) ! i = Some nm then 42 else reg_values (fst rd) ! i)"
proof (induction k)
  case 0
  then show ?case by simp
next
  case (Suc k)
  obtain rf dep where r: "fold (wb_reg nm q) [0 ..< k] rd = (rf, dep)"
    by (cases "fold (wb_reg nm q) [0 ..< k] rd")
  have len: "length (reg_values rf) = length (reg_values (fst rd))"
    using wb_fold_lengths [of nm q k rd] r by simp
  have st: "i = k \<Longrightarrow> reg_status rf ! k = reg_status (fst rd) ! k"
    using wb_fold_status [of k rd nm q k] r Suc.prems by simp
  have ih: "reg_values rf ! i =
     (if i < k \<and> reg_status (fst rd) ! i = Some nm then 42 else reg_values (fst rd) ! i)"
    using Suc r by simp
  show ?case unfolding wb_fold_Suc r using ih len st Suc.prems
    by (auto simp: wb_reg_values nth_list_update less_Suc_eq)
qed

lemma write_back_written:
  assumes "length (reg_values rf) = length (reg_status rf)"
  shows "fst (write_back nm q (rf, dep)) = written nm rf"
proof -
  define r where "r = fst (fold (wb_reg nm q) [0 ..< length (reg_status rf)] (rf, dep))"
  have l: "length (reg_status r) = length (reg_status rf)"
          "length (reg_values r) = length (reg_values rf)"
    using wb_fold_lengths [of nm q "length (reg_status rf)" "(rf, dep)"] by (simp_all add: r_def)
  have s: "reg_status r = map (\<lambda>t. if t = Some nm then None else t) (reg_status rf)"
  proof (rule nth_equalityI)
    show "length (reg_status r) = length (map (\<lambda>t. if t = Some nm then None else t) (reg_status rf))"
      using l by simp
    fix i assume "i < length (reg_status r)"
    then have i: "i < length (reg_status rf)" using l by simp
    then show "reg_status r ! i = map (\<lambda>t. if t = Some nm then None else t) (reg_status rf) ! i"
      using wb_fold_status [of i "(rf, dep)" nm q "length (reg_status rf)"] by (simp add: r_def)
  qed
  have v: "reg_values r = map (\<lambda>i. if reg_status rf ! i = Some nm then 42 else reg_values rf ! i)
                     [0 ..< length (reg_values rf)]"
  proof (rule nth_equalityI)
    show "length (reg_values r) = length (map (\<lambda>i. if reg_status rf ! i = Some nm then 42 else reg_values rf ! i)
                     [0 ..< length (reg_values rf)])"
      using l by simp
    fix i assume "i < length (reg_values r)"
    then have i: "i < length (reg_values rf)" using l by simp
    then show "reg_values r ! i = map (\<lambda>i. if reg_status rf ! i = Some nm then 42 else reg_values rf ! i)
                     [0 ..< length (reg_values rf)] ! i"
      using assms wb_fold_values [of i "(rf, dep)" nm q "length (reg_status rf)"] by (simp add: r_def)
  qed
  have "fst (write_back nm q (rf, dep)) = r" unfolding write_back_def r_def by simp
  moreover have "r = written nm rf"
    by (rule register_file.equality) (simp_all add: written_def s v)
  ultimately show ?thesis by simp
qed

lemma written_lengths:
  "length (reg_values (written nm rf)) = length (reg_values rf)"
  "length (reg_status (written nm rf)) = length (reg_status rf)"
  by (simp_all add: written_def)

lemma written_status_nth:
  "i < length (reg_status rf) \<Longrightarrow>
   reg_status (written nm rf) ! i = (if reg_status rf ! i = Some nm then None else reg_status rf ! i)"
  by (simp add: written_def)

lemma written_values_nth:
  "i < length (reg_values rf) \<Longrightarrow>
   reg_values (written nm rf) ! i = (if reg_status rf ! i = Some nm then 42 else reg_values rf ! i)"
  by (simp add: written_def)

lemma written_idem:
  assumes "length (reg_values rf) = length (reg_status rf)"
  shows "written nm (written nm rf) = written nm rf"
proof (rule register_file.equality)
  show "reg_values (written nm (written nm rf)) = reg_values (written nm rf)"
  proof (rule nth_equalityI)
    show "length (reg_values (written nm (written nm rf))) = length (reg_values (written nm rf))"
      by (simp add: written_lengths)
    fix i assume "i < length (reg_values (written nm (written nm rf)))"
    then have i: "i < length (reg_values rf)" "i < length (reg_status rf)"
      using assms by (simp_all add: written_lengths)
    show "reg_values (written nm (written nm rf)) ! i = reg_values (written nm rf) ! i"
      using i by (simp add: written_values_nth written_status_nth written_lengths)
  qed
  show "reg_status (written nm (written nm rf)) = reg_status (written nm rf)"
  proof (rule nth_equalityI)
    show "length (reg_status (written nm (written nm rf))) = length (reg_status (written nm rf))"
      by (simp add: written_lengths)
    fix i assume "i < length (reg_status (written nm (written nm rf)))"
    then have i: "i < length (reg_status rf)"
      by (simp add: written_lengths)
    show "reg_status (written nm (written nm rf)) ! i = reg_status (written nm rf) ! i"
      using i by (simp add: written_status_nth written_lengths)
  qed
qed simp

lemma complete_regs0:
  "e_regs (snd (complete nm c q st e)) = fst (write_back nm q (e_regs e, e_dep e))"
  by (simp only: complete_def Let_def snd_conv env.simps)

lemma complete_regs:
  "length (reg_values (e_regs e)) = length (reg_status (e_regs e)) \<Longrightarrow>
   e_regs (snd (complete nm c q st e)) = written nm (e_regs e)"
  unfolding complete_regs0 by (rule write_back_written)

lemma exec_station_regs:
  assumes "length (reg_values (e_regs e)) = length (reg_status (e_regs e))"
    and "exec_station nm ec c q st e = (st', e')"
  shows "e_regs e' = (if completes st then written nm (e_regs e) else e_regs e)"
proof (cases "completes st")
  case True
  then have "exec_station nm ec c q st e =
      complete nm c q (st\<lparr>cycles_left := cycles_left st - 1\<rparr>)
        (if cycles_left st = ec then e\<lparr>e_meta := set_start (op st) c (e_meta e)\<rparr> else e)"
    by (simp add: exec_station_def completes_def Let_def)
  then have "e' = snd (complete nm c q (st\<lparr>cycles_left := cycles_left st - 1\<rparr>)
        (if cycles_left st = ec then e\<lparr>e_meta := set_start (op st) c (e_meta e)\<rparr> else e))"
    using assms(2) by (metis snd_conv)
  moreover have "length (reg_values (e_regs (if cycles_left st = ec then e\<lparr>e_meta := set_start (op st) c (e_meta e)\<rparr> else e)))
      = length (reg_status (e_regs (if cycles_left st = ec then e\<lparr>e_meta := set_start (op st) c (e_meta e)\<rparr> else e)))"
    using assms(1) by simp
  ultimately have "e_regs e' = written nm (e_regs (if cycles_left st = ec then e\<lparr>e_meta := set_start (op st) c (e_meta e)\<rparr> else e))"
    using complete_regs by blast
  then show ?thesis using True by simp
next
  case False
  then have "e_regs (snd (exec_station nm ec c q st e)) = e_regs e"
    by (auto simp: exec_station_def completes_def Let_def)
  then show ?thesis using False assms(2) by simp
qed

lemma exec_stations_regs:
  assumes "length (reg_values (e_regs e)) = length (reg_status (e_regs e))"
    and "exec_stations nm ec c q sts e = (sts', e')"
  shows "e_regs e' = (if list_ex completes sts then written nm (e_regs e) else e_regs e)"
  using assms
proof (induction sts arbitrary: e sts' e')
  case Nil
  then show ?case by simp
next
  case (Cons st sts)
  obtain st1 e1 where a: "exec_station nm ec c q st e = (st1, e1)" by (cases "exec_station nm ec c q st e")
  obtain sts2 e2 where b: "exec_stations nm ec c q sts e1 = (sts2, e2)" by (cases "exec_stations nm ec c q sts e1")
  have r1: "e_regs e1 = (if completes st then written nm (e_regs e) else e_regs e)"
    using exec_station_regs [OF Cons.prems(1) a] .
  have l1: "length (reg_values (e_regs e1)) = length (reg_status (e_regs e1))"
    using r1 Cons.prems(1) by (simp add: written_lengths)
  have r2: "e_regs e2 = (if list_ex completes sts then written nm (e_regs e1) else e_regs e1)"
    using Cons.IH [OF l1 b] .
  have "e' = e2" using Cons.prems(2) a b by simp
  then show ?case using r1 r2 Cons.prems(1) by (simp add: written_idem)
qed

lemma example_reached:
  "map_sum id (\<lambda>s. (load_station s, regs s, current_cycle s)) (run_cycles 5 (initial two_loads))
     = Inr (example_pool, example_regs, 6)"
  by code_simp



lemma split_ws_nonempty:
  "acc \<noteq> [] \<or> (\<exists>c \<in> set s. \<not> is_space c) \<Longrightarrow> split_ws acc s \<noteq> []"
  by (induction s arbitrary: acc) auto

lemma strip_chars_keeps:
  assumes "strip_chars p s \<noteq> []"
  shows "\<exists>c \<in> set (strip_chars p s). \<not> p c"
proof -
  define t where "t = dropWhile p (rev (dropWhile p s))"
  have t: "t \<noteq> []" using assms by (simp add: strip_chars_def t_def)
  then have "\<not> p (hd t)" unfolding t_def by (rule hd_dropWhile)
  moreover have "hd t \<in> set (strip_chars p s)" using t by (simp add: strip_chars_def t_def)
  ultimately show ?thesis by blast
qed

lemma py_split_strip_nonempty:
  "py_strip line \<noteq> [] \<Longrightarrow> py_split (py_strip line) \<noteq> []"
  unfolding py_split_def py_strip_def
  by (rule split_ws_nonempty) (simp add: strip_chars_keeps)

lemma parse_instruction_tokens:
  "py_strip line \<noteq> [] \<Longrightarrow> parse_instruction line = Inr (tokens_of line)"
  using py_split_strip_nonempty [of line]
  by (cases "py_split (py_strip line)") (simp_all add: parse_instruction_def tokens_of_def)

lemma load_lines_all:
  "load_lines ls = Inr (map tokens_of (filter (\<lambda>l. py_strip l \<noteq> []) ls))"
  by (induction ls) (simp_all add: parse_instruction_tokens)

text \<open>
  C8, as amended. The parser validates nothing: every line that is not blank becomes one
  instruction, its first token as the mnemonic whatever it is, the other tokens with their
  commas stripped as the operands, in the order of the file. No line is rejected and none
  is skipped.
\<close>

theorem load_program_never_rejects:
  "load_program (Some ls) = Inr (map tokens_of (filter (\<lambda>l. py_strip l \<noteq> []) ls))"
  by (simp add: load_program_def load_lines_all)

theorem load_program_never_rejects_witness:
  "load_program (Some [''LOAD R1, 0(R2)'', ''   '', ''BOGUS R9, R9, R9, R9'']) =
     Inr [\<lparr>operation = ''LOAD'', operands = [''R1'', ''0(R2)'']\<rparr>,
          \<lparr>operation = ''BOGUS'', operands = [''R9'', ''R9'', ''R9'', ''R9'']\<rparr>]"
proof -
  have "map tokens_of (filter (\<lambda>l. py_strip l \<noteq> [])
          [''LOAD R1, 0(R2)'', ''   '', ''BOGUS R9, R9, R9, R9'']) =
        [\<lparr>operation = ''LOAD'', operands = [''R1'', ''0(R2)'']\<rparr>,
          \<lparr>operation = ''BOGUS'', operands = [''R9'', ''R9'', ''R9'', ''R9'']\<rparr>]"
    by code_simp
  then show ?thesis
    using load_program_never_rejects [of "[''LOAD R1, 0(R2)'', ''   '', ''BOGUS R9, R9, R9, R9'']"]
    by simp
qed

text \<open>
  C8 as stated fails: a line with an unknown mnemonic is loaded without any error, and the
  scheduler receives the instruction and puts it on the stall queue.
\<close>

theorem unknown_mnemonic_counterexample:
  "load_program (Some [''FOO R1'']) = Inr [\<lparr>operation = ''FOO'', operands = [''R1'']\<rparr>] \<and>
   map_sum id stalled_queue (run_cycles 1 (initial [\<lparr>operation = ''FOO'', operands = [''R1'']\<rparr>]))
     = Inr [\<lparr>operation = ''FOO'', operands = [''R1'']\<rparr>]"
  by code_simp

text \<open>
  C1 as stated fails: the load is issued in cycle 1 and the add in cycle 2, and the add
  commits in cycle 3, before the load, which commits in cycle 6.
\<close>

theorem in_order_commit_counterexample:
  "map_option (map_sum id (\<lambda>s. map (\<lambda>m. (m_instruction m, m_issued m, commit m))
       (instruction_metadata s))) (main_loop (initial load_then_add))
   = Some (Inr [(''LOAD'', 1, Some 6), (''ADD'', 2, Some 3)])"
  by code_simp

lemma rob_commit_none:
  "\<not> list_ex written_back es \<Longrightarrow> rob_commit c md es = (False, es, md)"
  by (induction es) (simp_all add: written_back_def)

text \<open>
  C1, as amended. Commit is not tied to the order of issue. A call of
  \<^verbatim>\<open>ReorderBuffer.commit\<close> retires the entry of lowest index that is busy and in state
  \<open>Write\<close> (entries are taken in \<^verbatim>\<open>execute_and_commit\<close>, when a station completes):
  that entry alone changes, to state \<open>Commit\<close> and not busy, and the call returns true.
  When no entry is busy and in state \<open>Write\<close>, nothing changes and the call returns false.
\<close>

theorem rob_commit_first_written:
  assumes "rob_commit c md es = (b, es', md')"
  shows "if list_ex written_back es
         then b \<and> (\<exists>i < length es. written_back (es ! i) \<and> (\<forall>j < i. \<not> written_back (es ! j)) \<and>
                 es' = es[i := (es ! i)\<lparr>rob_busy := False, rob_state := Commit\<rparr>])
         else \<not> b \<and> es' = es \<and> md' = md"
  using assms
proof (induction es arbitrary: b es' md')
  case Nil
  then show ?case by simp
next
  case (Cons e es)
  show ?case
  proof (cases "written_back e")
    case True
    then have "b" "es' = e\<lparr>rob_busy := False, rob_state := Commit\<rparr> # es"
      using Cons.prems by (simp_all add: written_back_def)
    then have "written_back ((e # es) ! 0) \<and> (\<forall>j < 0. \<not> written_back ((e # es) ! j)) \<and>
        es' = (e # es)[0 := ((e # es) ! 0)\<lparr>rob_busy := False, rob_state := Commit\<rparr>]"
      using True by simp
    moreover have "0 < length (e # es)" by simp
    ultimately have "\<exists>i < length (e # es). written_back ((e # es) ! i) \<and>
        (\<forall>j < i. \<not> written_back ((e # es) ! j)) \<and>
        es' = (e # es)[i := ((e # es) ! i)\<lparr>rob_busy := False, rob_state := Commit\<rparr>]"
      by blast
    then show ?thesis using True \<open>b\<close> by simp
  next
    case False
    obtain b1 es1 md1 where r: "rob_commit c md es = (b1, es1, md1)"
      by (cases "rob_commit c md es")
    have eq: "b = b1" "es' = e # es1" "md' = md1"
      using Cons.prems False r by (auto simp: written_back_def)
    note ih = Cons.IH [OF r]
    show ?thesis
    proof (cases "list_ex written_back es")
      case True
      then obtain i where i: "i < length es" "written_back (es ! i)"
          "\<forall>j < i. \<not> written_back (es ! j)"
          "es1 = es[i := (es ! i)\<lparr>rob_busy := False, rob_state := Commit\<rparr>]" and b1: b1
        using ih by auto
      have "Suc i < length (e # es) \<and> written_back ((e # es) ! Suc i) \<and>
            (\<forall>j < Suc i. \<not> written_back ((e # es) ! j)) \<and>
            es' = (e # es)[Suc i := ((e # es) ! Suc i)\<lparr>rob_busy := False, rob_state := Commit\<rparr>]"
        using i False eq by (auto simp: nth_Cons split: nat.splits)
      then have "\<exists>k < length (e # es). written_back ((e # es) ! k) \<and>
            (\<forall>j < k. \<not> written_back ((e # es) ! j)) \<and>
            es' = (e # es)[k := ((e # es) ! k)\<lparr>rob_busy := False, rob_state := Commit\<rparr>]"
        by blast
      then show ?thesis using True b1 eq by simp
    next
      case no: False
      then show ?thesis using ih False eq by simp
    qed
  qed
qed

theorem rob_commit_first_written_witness:
  "list_ex written_back example_rob \<and> fst (rob_commit 7 [] example_rob) \<and>
   (\<exists>i < length example_rob. written_back (example_rob ! i) \<and>
      (\<forall>j < i. \<not> written_back (example_rob ! j)) \<and>
      fst (snd (rob_commit 7 [] example_rob)) =
        example_rob[i := (example_rob ! i)\<lparr>rob_busy := False, rob_state := Commit\<rparr>])"
proof -
  have h: "rob_commit 7 [] example_rob =
      (fst (rob_commit 7 [] example_rob), fst (snd (rob_commit 7 [] example_rob)),
       snd (snd (rob_commit 7 [] example_rob)))" by simp
  have l: "list_ex written_back example_rob" by (simp add: example_rob_def written_back_def)
  show ?thesis using rob_commit_first_written [OF h] l by simp
qed

lemma if_chain7:
  assumes "(if g1 then a1 else if g2 then a2 else if g3 then a3 else if g4 then a4
            else if g5 then a5 else if g6 then a6 else if g7 then a7 else a8) = r"
  shows "(g1 \<and> a1 = r) \<or> (g2 \<and> a2 = r) \<or> (g3 \<and> a3 = r) \<or> (g4 \<and> a4 = r) \<or> (g5 \<and> a5 = r)
    \<or> (g6 \<and> a6 = r) \<or> (g7 \<and> a7 = r)
    \<or> (\<not> g1 \<and> \<not> g2 \<and> \<not> g3 \<and> \<not> g4 \<and> \<not> g5 \<and> \<not> g6 \<and> \<not> g7 \<and> a8 = r)"
  using assms by (simp split: if_splits)

lemma py_in_NAND_names:
  "\<not> py_in ''LOAD'' ''NAND''" "\<not> py_in ''STORE'' ''NAND''" "\<not> py_in ''ADD'' ''NAND''"
  "\<not> py_in ''ADDI'' ''NAND''" "\<not> py_in ''MULT'' ''NAND''" "\<not> py_in ''BEQ'' ''NAND''"
  "\<not> py_in ''CALL'' ''NAND''" "\<not> py_in ''RET'' ''NAND''"
  by simp_all

declare py_in.simps [simp del]

lemma pool_for_NAND: "py_in opn ''NAND'' \<Longrightarrow> pool_for opn = Some PNand"
  using py_in_NAND_names by (auto simp: pool_for_def)

lemma sum_case_Inr_eq:
  "(case x of Inl e \<Rightarrow> Inl e | Inr s0 \<Rightarrow> Inr (True, f s0)) = Inr (b, s') \<longleftrightarrow>
   b \<and> (\<exists>s0. x = Inr s0 \<and> s' = f s0)"
  by (cases x) auto

lemma issue_fetched_shape:
  "issue_fetched instr (vj, vk, qj, qk) s = Inr (b, s') \<Longrightarrow>
   (\<not> b \<and> s' = s) \<or> (b \<and> (\<exists>pid. issued_to pid instr (vj, vk, qj, qk) s s'))"
  unfolding issue_fetched_def prod.case
  apply (drule if_chain7)
  apply (elim disjE conjE)
  subgoal by (rule disjI2) (auto simp: issued_to_def sum_case_Inr_eq pool_for_def dest_step_def intro!: exI [of _ PLoad])
  subgoal by (rule disjI2) (auto simp: issued_to_def sum_case_Inr_eq pool_for_def dest_step_def intro!: exI [of _ PStore])
  subgoal by (rule disjI2) (auto simp: issued_to_def sum_case_Inr_eq pool_for_def dest_step_def intro!: exI [of _ PAdd])
  subgoal by (rule disjI2) (auto simp: issued_to_def sum_case_Inr_eq pool_for_def dest_step_def intro!: exI [of _ PMult])
  subgoal by (rule disjI2) (auto simp: issued_to_def sum_case_Inr_eq pool_for_def dest_step_def intro!: exI [of _ PBranch])
  subgoal by (rule disjI2) (auto simp: issued_to_def sum_case_Inr_eq pool_for_def dest_step_def intro!: exI [of _ PCallRet])
  subgoal by (rule disjI2) (auto simp: issued_to_def pool_for_NAND dest_step_def intro!: exI [of _ PNand])
  subgoal by simp
  done

lemma issue_stalled_shape:
  "issue_stalled instr (vj, vk, qj, qk) s = Inr (b, s') \<Longrightarrow>
   (\<not> b \<and> s' = s) \<or> (b \<and> (\<exists>pid. pid \<noteq> PNand \<and> issued_to pid instr (vj, vk, qj, qk) s s'))"
  unfolding issue_stalled_def prod.case
  apply (drule if_chain7)
  apply (elim disjE conjE)
  subgoal by (rule disjI2) (auto simp: issued_to_def sum_case_Inr_eq pool_for_def dest_step_def intro!: exI [of _ PLoad])
  subgoal by (rule disjI2) (auto simp: issued_to_def sum_case_Inr_eq pool_for_def dest_step_def intro!: exI [of _ PStore])
  subgoal by (rule disjI2) (auto simp: issued_to_def sum_case_Inr_eq pool_for_def dest_step_def intro!: exI [of _ PAdd])
  subgoal by (rule disjI2) (auto simp: issued_to_def sum_case_Inr_eq pool_for_def dest_step_def intro!: exI [of _ PMult])
  subgoal by (rule disjI2) (auto simp: issued_to_def sum_case_Inr_eq pool_for_def dest_step_def intro!: exI [of _ PBranch])
  subgoal by (rule disjI2) (auto simp: issued_to_def sum_case_Inr_eq pool_for_def dest_step_def intro!: exI [of _ PCallRet])
  subgoal by simp
  subgoal by simp
  done

lemma issue_fetched_tagged:
  "qj \<noteq> None \<or> qk \<noteq> None \<Longrightarrow> issue_fetched instr (vj, vk, qj, qk) s = Inr (False, s)"
  by (auto simp: issue_fetched_def)

lemma issue_stalled_tagged:
  "qj \<noteq> None \<or> qk \<noteq> None \<Longrightarrow> issue_stalled instr (vj, vk, qj, qk) s = Inr (False, s)"
  by (auto simp: issue_stalled_def)

lemma pool_for_None:
  "pool_for opn = None \<Longrightarrow>
   opn \<noteq> ''LOAD'' \<and> opn \<noteq> ''STORE'' \<and> opn \<notin> set [''ADD'', ''ADDI''] \<and> opn \<noteq> ''MULT'' \<and>
   opn \<noteq> ''BEQ'' \<and> opn \<notin> set [''CALL'', ''RET''] \<and> \<not> py_in opn ''NAND''"
  by (simp add: pool_for_def split: if_splits)

lemma issue_fetched_unknown:
  "pool_for (operation instr) = None \<Longrightarrow> issue_fetched instr r s = Inr (False, s)"
  by (drule pool_for_None) (cases r, simp add: issue_fetched_def)

lemma issue_stalled_unknown:
  "pool_for (operation instr) = None \<Longrightarrow> issue_stalled instr r s = Inr (False, s)"
  by (drule pool_for_None) (cases r, simp add: issue_stalled_def)

lemma pools_get_pool: "pools s = map (\<lambda>pid. get_pool pid s) all_pool_ids"
  by (simp add: pools_def all_pool_ids_def)

lemma all_pool_ids_complete: "pid \<in> set all_pool_ids"
  by (cases pid) (simp_all add: all_pool_ids_def)

lemma get_set_pool_same: "get_pool pid (set_pool pid p s) = p"
  by (cases pid) simp_all

lemma get_set_pool_other: "pid' \<noteq> pid \<Longrightarrow> get_pool pid' (set_pool pid p s) = get_pool pid' s"
  by (cases pid; cases pid') simp_all

lemma set_pool_frame:
  "regs (set_pool pid p s) = regs s"
  "dependency_table (set_pool pid p s) = dependency_table s"
  "reorder_buffer (set_pool pid p s) = reorder_buffer s"
  "instruction_queue (set_pool pid p s) = instruction_queue s"
  "stalled_queue (set_pool pid p s) = stalled_queue s"
  "current_cycle (set_pool pid p s) = current_cycle s"
  "instruction_metadata (set_pool pid p s) = instruction_metadata s"
  by (cases pid; simp)+

lemma set_dest_shape:
  assumes "set_dest tag instr s = Inr s'"
  shows "\<exists>k < length (reg_status (regs s)).
     s' = s\<lparr>regs := (regs s)\<lparr>reg_status := (reg_status (regs s))[k := Some tag]\<rparr>,
             dependency_table := (dependency_table s)
                [k := (dependency_table s ! k)\<lparr>dep_W := Some (operation instr)\<rparr>]\<rparr>"
proof -
  obtain o0 os where o: "operands instr = o0 # os"
    using assms by (cases "operands instr") (simp_all add: set_dest_def)
  obtain i where i: "py_int (drop 1 o0) = Some i"
    using assms o by (cases "py_int (drop 1 o0)") (simp_all add: set_dest_def)
  obtain k where k: "py_index (reg_status (regs s)) i = Some k"
    using assms o i by (cases "py_index (reg_status (regs s)) i") (simp_all add: set_dest_def)
  have r: "0 \<le> i" "i < int (length (dependency_table s))"
    using assms o i k by (simp_all add: set_dest_def split: if_splits)
  have kk: "k = nat i" "k < length (reg_status (regs s))"
    using k r by (auto simp: py_index_def Let_def split: if_splits)
  have "s' = s\<lparr>regs := (regs s)\<lparr>reg_status := (reg_status (regs s))[k := Some tag]\<rparr>,
             dependency_table := (dependency_table s)
                [k := (dependency_table s ! k)\<lparr>dep_W := Some (operation instr)\<rparr>]\<rparr>"
    using assms o i k r kk by (simp add: set_dest_def)
  then show ?thesis using kk by blast
qed

lemma dest_step_shape:
  assumes "dest_step pid instr s = Inr s'"
  shows "s' = s \<or> (\<exists>k < length (reg_status (regs s)). \<exists>tag \<in> {''LOAD'', ''ADD''}.
     s' = s\<lparr>regs := (regs s)\<lparr>reg_status := (reg_status (regs s))[k := Some tag]\<rparr>,
             dependency_table := (dependency_table s)
                [k := (dependency_table s ! k)\<lparr>dep_W := Some (operation instr)\<rparr>]\<rparr>)"
proof (cases "pid = PLoad")
  case True
  then show ?thesis using assms set_dest_shape [of "''LOAD''" instr s s']
    by (simp add: dest_step_def) blast
next
  case False
  show ?thesis
  proof (cases "pid = PAdd")
    case True
    then show ?thesis using assms set_dest_shape [of "''ADD''" instr s s']
      by (simp add: dest_step_def) blast
  next
    case no: False
    then show ?thesis using assms False by (simp add: dest_step_def)
  qed
qed

lemma get_pool_regs_dep_update:
  "get_pool pid (s\<lparr>regs := r, dependency_table := d\<rparr>) = get_pool pid s"
  by (cases pid) simp_all

lemma get_pool_append_meta: "get_pool pid (append_meta instr s) = get_pool pid s"
  by (cases pid) (simp_all add: append_meta_def)

lemma get_pool_queue_updates:
  "get_pool pid (s\<lparr>instruction_queue := q\<rparr>) = get_pool pid s"
  "get_pool pid (s\<lparr>stalled_queue := q\<rparr>) = get_pool pid s"
  by (cases pid; simp)+

text \<open>What a successful issue changes.\<close>

lemma issued_to_effect:
  assumes "issued_to pid instr r s s'"
  shows "get_pool pid s' = allocated (get_pool pid s) instr r"
    and "\<And>pid'. pid' \<noteq> pid \<Longrightarrow> get_pool pid' s' = get_pool pid' s"
    and "reorder_buffer s' = reorder_buffer s"
    and "stalled_queue s' = stalled_queue s"
    and "instruction_queue s' = instruction_queue s"
    and "current_cycle s' = current_cycle s"
    and "instruction_metadata s' = instruction_metadata s @ [new_meta instr (current_cycle s)]"
    and "reg_values (regs s') = reg_values (regs s)"
    and "length (dependency_table s') = length (dependency_table s)"
    and "reg_status (regs s') = reg_status (regs s) \<or>
         (\<exists>k < length (reg_status (regs s)). \<exists>tag \<in> {''LOAD'', ''ADD''}.
            reg_status (regs s') = (reg_status (regs s))[k := Some tag])"
proof -
  define s1 where "s1 = set_pool pid (allocated (get_pool pid s) instr r) s"
  obtain s0 where d: "dest_step pid instr s1 = Inr s0" and s': "s' = append_meta instr s0"
    using assms by (auto simp: issued_to_def s1_def)
  have f1: "regs s1 = regs s" "dependency_table s1 = dependency_table s"
    "reorder_buffer s1 = reorder_buffer s" "instruction_queue s1 = instruction_queue s"
    "stalled_queue s1 = stalled_queue s" "current_cycle s1 = current_cycle s"
    "instruction_metadata s1 = instruction_metadata s"
    by (simp_all add: s1_def set_pool_frame)
  have g1: "get_pool pid s1 = allocated (get_pool pid s) instr r"
    "\<And>pid'. pid' \<noteq> pid \<Longrightarrow> get_pool pid' s1 = get_pool pid' s"
    by (simp_all add: s1_def get_set_pool_same get_set_pool_other)
  from dest_step_shape [OF d]
  consider (same) "s0 = s1"
    | (tag) k tag where "k < length (reg_status (regs s1))" "tag \<in> {''LOAD'', ''ADD''}"
       "s0 = s1\<lparr>regs := (regs s1)\<lparr>reg_status := (reg_status (regs s1))[k := Some tag]\<rparr>,
             dependency_table := (dependency_table s1)
                [k := (dependency_table s1 ! k)\<lparr>dep_W := Some (operation instr)\<rparr>]\<rparr>"
    by blast
  then have all: "get_pool pid s' = allocated (get_pool pid s) instr r \<and>
      (\<forall>pid'. pid' \<noteq> pid \<longrightarrow> get_pool pid' s' = get_pool pid' s) \<and>
      reorder_buffer s' = reorder_buffer s \<and> stalled_queue s' = stalled_queue s \<and>
      instruction_queue s' = instruction_queue s \<and> current_cycle s' = current_cycle s \<and>
      instruction_metadata s' = instruction_metadata s @ [new_meta instr (current_cycle s)] \<and>
      reg_values (regs s') = reg_values (regs s) \<and>
      length (dependency_table s') = length (dependency_table s) \<and>
      (reg_status (regs s') = reg_status (regs s) \<or>
         (\<exists>k < length (reg_status (regs s)). \<exists>tag \<in> {''LOAD'', ''ADD''}.
            reg_status (regs s') = (reg_status (regs s))[k := Some tag]))"
  proof cases
    case same
    then show ?thesis using s' f1 g1
      by (simp add: get_pool_append_meta) (simp add: append_meta_def new_meta_def)
  next
    case tag
    have "\<exists>k < length (reg_status (regs s)). \<exists>tag \<in> {''LOAD'', ''ADD''}.
            reg_status (regs s') = (reg_status (regs s))[k := Some tag]"
      using tag s' f1 by (auto simp: append_meta_def)
    then show ?thesis using tag(3) s' f1 g1
      by (simp add: get_pool_append_meta get_pool_regs_dep_update)
         (simp add: append_meta_def new_meta_def)
  qed
  show "get_pool pid s' = allocated (get_pool pid s) instr r"
    and "\<And>pid'. pid' \<noteq> pid \<Longrightarrow> get_pool pid' s' = get_pool pid' s"
    and "reorder_buffer s' = reorder_buffer s"
    and "stalled_queue s' = stalled_queue s"
    and "instruction_queue s' = instruction_queue s"
    and "current_cycle s' = current_cycle s"
    and "instruction_metadata s' = instruction_metadata s @ [new_meta instr (current_cycle s)]"
    and "reg_values (regs s') = reg_values (regs s)"
    and "length (dependency_table s') = length (dependency_table s)"
    and "reg_status (regs s') = reg_status (regs s) \<or>
         (\<exists>k < length (reg_status (regs s)). \<exists>tag \<in> {''LOAD'', ''ADD''}.
            reg_status (regs s') = (reg_status (regs s))[k := Some tag])"
    using all by blast+
qed

subsection \<open>The issue phase\<close>

lemma retry_stalled_Cons:
  assumes "retry_stalled (instr # rest) s = Inr (rem, s')"
  obtains r b s1 rem1 where "resolve_operands (regs s) (operands instr) = Inr r"
    and "issue_stalled instr r s = Inr (b, s1)"
    and "retry_stalled rest s1 = Inr (rem1, s')"
    and "rem = (if b then rem1 else instr # rem1)"
proof -
  obtain r where r: "resolve_operands (regs s) (operands instr) = Inr r"
    using assms by (cases "resolve_operands (regs s) (operands instr)") simp_all
  obtain b s1 where i: "issue_stalled instr r s = Inr (b, s1)"
    using assms r by (cases "issue_stalled instr r s") auto
  obtain rem1 s2 where t: "retry_stalled rest s1 = Inr (rem1, s2)"
    using assms r i by (cases "retry_stalled rest s1") auto
  have "rem = (if b then rem1 else instr # rem1)" "s' = s2"
    using assms r i t by simp_all
  then show ?thesis using that r i t by blast
qed

lemma issue_stalled_cases:
  assumes "issue_stalled instr r s = Inr (b, s')"
  shows "(\<not> b \<and> s' = s) \<or> (b \<and> (\<exists>pid. issued_to pid instr r s s'))"
  using issue_stalled_shape [of instr _ _ _ _ s b s'] assms by (cases r) blast

lemma issue_fetched_cases:
  assumes "issue_fetched instr r s = Inr (b, s')"
  shows "(\<not> b \<and> s' = s) \<or> (b \<and> (\<exists>pid. issued_to pid instr r s s'))"
  using issue_fetched_shape [of instr _ _ _ _ s b s'] assms by (cases r) blast

lemma retry_stalled_invariant:
  assumes step: "\<And>pid instr r s s'. I s \<Longrightarrow> issued_to pid instr r s s' \<Longrightarrow> I s'"
  shows "I s \<Longrightarrow> retry_stalled q s = Inr (rem, s') \<Longrightarrow> I s'"
proof (induction q arbitrary: s rem s')
  case Nil
  then show ?case by simp
next
  case (Cons instr rest)
  from Cons.prems(2) obtain r b s1 rem1 where
      i: "issue_stalled instr r s = Inr (b, s1)" and t: "retry_stalled rest s1 = Inr (rem1, s')"
    by (rule retry_stalled_Cons)
  have "I s1" using issue_stalled_cases [OF i] Cons.prems(1) step by blast
  then show ?case using Cons.IH t by blast
qed

lemma fetch_issue_Cons:
  assumes "fetch_issue s = Inr s'" and "instruction_queue s = instr # rest"
  obtains r b s2 where "resolve_operands (regs s) (operands instr) = Inr r"
    and "issue_fetched instr r (s\<lparr>instruction_queue := rest\<rparr>) = Inr (b, s2)"
    and "s' = (if b then s2 else s2\<lparr>stalled_queue := stalled_queue s2 @ [instr]\<rparr>)"
proof -
  obtain r where r: "resolve_operands (regs s) (operands instr) = Inr r"
    using assms by (cases "resolve_operands (regs s) (operands instr)")
      (simp_all add: fetch_issue_def Let_def)
  obtain b s2 where i: "issue_fetched instr r (s\<lparr>instruction_queue := rest\<rparr>) = Inr (b, s2)"
    using assms r by (cases "issue_fetched instr r (s\<lparr>instruction_queue := rest\<rparr>)")
      (auto simp: fetch_issue_def Let_def)
  have "s' = (if b then s2 else s2\<lparr>stalled_queue := stalled_queue s2 @ [instr]\<rparr>)"
    using assms r i by (simp add: fetch_issue_def Let_def)
  then show ?thesis using that r i by blast
qed

lemma fetch_issue_invariant:
  assumes step: "\<And>pid instr r s s'. I s \<Longrightarrow> issued_to pid instr r s s' \<Longrightarrow> I s'"
    and q1: "\<And>s q. I (s\<lparr>instruction_queue := q\<rparr>) = I s"
    and q2: "\<And>s q. I (s\<lparr>stalled_queue := q\<rparr>) = I s"
    and "I s" and "fetch_issue s = Inr s'"
  shows "I s'"
proof (cases "instruction_queue s")
  case Nil
  then show ?thesis using assms(4,5) by (simp add: fetch_issue_def)
next
  case (Cons instr rest)
  from assms(5) Cons obtain r b s2 where
      i: "issue_fetched instr r (s\<lparr>instruction_queue := rest\<rparr>) = Inr (b, s2)"
      and s': "s' = (if b then s2 else s2\<lparr>stalled_queue := stalled_queue s2 @ [instr]\<rparr>)"
    by (rule fetch_issue_Cons)
  have "I (s\<lparr>instruction_queue := rest\<rparr>)" using assms(4) q1 by simp
  then have "I s2" using issue_fetched_cases [OF i] step by blast
  then show ?thesis using s' q2 by simp
qed

lemma cycle_decomp:
  assumes "cycle s = Inr s'"
  obtains rem s1 s2 where "retry_stalled (stalled_queue s) s = Inr (rem, s1)"
    and "fetch_issue (s1\<lparr>stalled_queue := rem\<rparr>) = Inr s2"
    and "s' = (commit_step (execute_all s2))
               \<lparr>current_cycle := current_cycle (commit_step (execute_all s2)) + 1\<rparr>"
proof -
  obtain rem s1 where a: "retry_stalled (stalled_queue s) s = Inr (rem, s1)"
    using assms by (cases "retry_stalled (stalled_queue s) s") (auto simp: cycle_def)
  obtain s2 where b: "fetch_issue (s1\<lparr>stalled_queue := rem\<rparr>) = Inr s2"
    using assms a by (cases "fetch_issue (s1\<lparr>stalled_queue := rem\<rparr>)") (auto simp: cycle_def)
  have "s' = (commit_step (execute_all s2))
               \<lparr>current_cycle := current_cycle (commit_step (execute_all s2)) + 1\<rparr>"
    using assms a b by (simp add: cycle_def Let_def)
  then show ?thesis using that a b by blast
qed

lemma issue_phase_invariant:
  assumes step: "\<And>pid instr r s s'. I s \<Longrightarrow> issued_to pid instr r s s' \<Longrightarrow> I s'"
    and q1: "\<And>s q. I (s\<lparr>instruction_queue := q\<rparr>) = I s"
    and q2: "\<And>s q. I (s\<lparr>stalled_queue := q\<rparr>) = I s"
    and "I s" and "retry_stalled (stalled_queue s) s = Inr (rem, s1)"
    and "fetch_issue (s1\<lparr>stalled_queue := rem\<rparr>) = Inr s2"
  shows "I s2"
proof -
  have "I s1"
  proof (rule retry_stalled_invariant [where I = I])
    show "\<And>pid instr r s s'. I s \<Longrightarrow> issued_to pid instr r s s' \<Longrightarrow> I s'" by (rule step)
    show "I s" by fact
    show "retry_stalled (stalled_queue s) s = Inr (rem, s1)" by fact
  qed
  then have a: "I (s1\<lparr>stalled_queue := rem\<rparr>)" using q2 by simp
  show ?thesis
  proof (rule fetch_issue_invariant [where I = I])
    show "\<And>pid instr r s s'. I s \<Longrightarrow> issued_to pid instr r s s' \<Longrightarrow> I s'" by (rule step)
    show "\<And>s q. I (s\<lparr>instruction_queue := q\<rparr>) = I s" by (rule q1)
    show "\<And>s q. I (s\<lparr>stalled_queue := q\<rparr>) = I s" by (rule q2)
    show "I (s1\<lparr>stalled_queue := rem\<rparr>)" by (rule a)
    show "fetch_issue (s1\<lparr>stalled_queue := rem\<rparr>) = Inr s2" by fact
  qed
qed

subsection \<open>Allocation\<close>

lemma alloc_first_shape:
  "alloc_first f sts = Some sts' \<Longrightarrow>
   \<exists>k < length sts. \<not> busy (sts ! k) \<and> (\<forall>j < k. busy (sts ! j)) \<and> sts' = sts[k := f (sts ! k)]"
proof (induction sts arbitrary: sts')
  case Nil
  then show ?case by simp
next
  case (Cons st sts)
  show ?case
  proof (cases "busy st")
    case False
    then have "sts' = (st # sts)[0 := f ((st # sts) ! 0)]" using Cons.prems by simp
    moreover have "\<not> busy ((st # sts) ! 0)" using False by simp
    ultimately show ?thesis by (intro exI [of _ 0]) simp
  next
    case True
    then obtain t where t: "alloc_first f sts = Some t" "sts' = st # t"
      using Cons.prems by auto
    from Cons.IH [OF t(1)] obtain k where k: "k < length sts" "\<not> busy (sts ! k)"
        "\<forall>j < k. busy (sts ! j)" "t = sts[k := f (sts ! k)]" by blast
    have "\<forall>j < Suc k. busy ((st # sts) ! j)"
      using k(3) True by (auto simp: nth_Cons split: nat.splits)
    then show ?thesis using k t(2) by (intro exI [of _ "Suc k"]) simp
  qed
qed

lemma alloc_first_None: "alloc_first f sts = None \<longleftrightarrow> \<not> list_ex (\<lambda>st. \<not> busy st) sts"
  by (induction sts) auto

lemma allocated_shape:
  assumes "is_available p"
  shows "\<exists>k < length (stations p). \<not> busy (stations p ! k) \<and>
     allocated p instr (vj, vk, qj, qk) =
       p\<lparr>stations := (stations p)[k := (stations p ! k)
          \<lparr>busy := True, op := Some (operation instr), Vj := vj, Vk := vk, Qj := qj, Qk := qk,
           cycles_left := execution_cycles p\<rparr>]\<rparr>"
proof -
  let ?f = "\<lambda>st. st\<lparr>busy := True, op := Some (operation instr), Vj := vj, Vk := vk, Qj := qj,
                     Qk := qk, cycles_left := execution_cycles p\<rparr>"
  obtain t where t: "alloc_first ?f (stations p) = Some t"
    using assms alloc_first_None [of ?f "stations p"] by (auto simp: is_available_def)
  from alloc_first_shape [OF t] obtain k where k: "k < length (stations p)"
      "\<not> busy (stations p ! k)" "t = (stations p)[k := ?f (stations p ! k)]" by blast
  have "allocated p instr (vj, vk, qj, qk) = p\<lparr>stations := t\<rparr>"
    using t by (simp add: allocated_def allocate_def)
  then show ?thesis using k by blast
qed

lemma untagged_allocated:
  assumes "untagged p" and "is_available p"
  shows "untagged (allocated p instr (vj, vk, None, None))"
proof -
  from allocated_shape [OF assms(2), of instr vj vk None None]
  obtain k where k: "allocated p instr (vj, vk, None, None) =
       p\<lparr>stations := (stations p)[k := (stations p ! k)
          \<lparr>busy := True, op := Some (operation instr), Vj := vj, Vk := vk, Qj := None, Qk := None,
           cycles_left := execution_cycles p\<rparr>]\<rparr>" by blast
  show ?thesis unfolding k untagged_def using assms(1)
    by (auto simp: untagged_def dest!: subsetD [OF set_update_subset_insert])
qed

subsection \<open>The invariant through the issue phase\<close>

lemma inv_issued_to:
  assumes "sim_inv s" and "issued_to pid instr r s s'"
  shows "sim_inv s'"
proof -
  note e = issued_to_effect [OF assms(2)]
  obtain vj vk qj qk where r: "r = (vj, vk, qj, qk)" by (cases r) auto
  have q: "qj = None" "qk = None" "is_available (get_pool pid s)"
    using assms(2) r by (simp_all add: issued_to_def)
  have u: "\<And>pid'. untagged (get_pool pid' s')"
  proof -
    fix pid'
    show "untagged (get_pool pid' s')"
    proof (cases "pid' = pid")
      case True
      then show ?thesis using e(1) r q assms(1) untagged_allocated by (simp add: sim_inv_def)
    next
      case False
      then show ?thesis using e(2) assms(1) by (simp add: sim_inv_def)
    qed
  qed
  have st: "set (reg_status (regs s')) \<subseteq> {None, Some ''LOAD'', Some ''ADD''}"
    using e(10) assms(1) unfolding sim_inv_def
    by (auto dest!: subsetD [OF set_update_subset_insert])
  have len: "length (reg_status (regs s')) = 8" using e(10) assms(1) unfolding sim_inv_def by auto
  show ?thesis using u st len e(8) assms(1) by (simp add: sim_inv_def)
qed

lemma inv_queue_updates:
  "sim_inv (s\<lparr>instruction_queue := q\<rparr>) = sim_inv s"
  "sim_inv (s\<lparr>stalled_queue := q\<rparr>) = sim_inv s"
  by (simp_all add: sim_inv_def get_pool_queue_updates)

subsection \<open>The invariant through execution\<close>

lemma exec_station_untagged:
  assumes "busy st \<longrightarrow> Qj st = None \<and> Qk st = None"
  shows "busy (fst (exec_station nm ec c q st e)) \<longrightarrow>
         Qj (fst (exec_station nm ec c q st e)) = None \<and> Qk (fst (exec_station nm ec c q st e)) = None"
  using assms by (simp add: exec_station_def complete_def release_def Let_def)

lemma exec_stations_untagged:
  assumes "\<forall>st \<in> set sts. busy st \<longrightarrow> Qj st = None \<and> Qk st = None"
  shows "\<forall>st \<in> set (fst (exec_stations nm ec c q sts e)). busy st \<longrightarrow> Qj st = None \<and> Qk st = None"
  using assms
proof (induction sts arbitrary: e)
  case Nil
  then show ?case by simp
next
  case (Cons st sts)
  obtain st1 e1 where a: "exec_station nm ec c q st e = (st1, e1)"
    by (cases "exec_station nm ec c q st e")
  obtain sts2 e2 where b: "exec_stations nm ec c q sts e1 = (sts2, e2)"
    by (cases "exec_stations nm ec c q sts e1")
  have "busy st1 \<longrightarrow> Qj st1 = None \<and> Qk st1 = None"
    using exec_station_untagged [of st nm ec c q e] Cons.prems a by simp
  moreover have "\<forall>st \<in> set sts2. busy st \<longrightarrow> Qj st = None \<and> Qk st = None"
    using Cons.IH [of e1] Cons.prems b by simp
  ultimately show ?case using a b by simp
qed

lemma execute_and_commit_untagged:
  "untagged p \<Longrightarrow> untagged (fst (execute_and_commit p c q e))"
  using exec_stations_untagged [of "stations p" "name p" "execution_cycles p" c q e]
  by (simp add: untagged_def execute_and_commit_def split: prod.splits)

lemma regs_ok_written: "regs_ok rf \<Longrightarrow> regs_ok (written nm rf)"
  by (auto simp: regs_ok_def written_def)

lemma execute_and_commit_regs_ok:
  assumes "regs_ok (e_regs e)"
  shows "regs_ok (e_regs (snd (execute_and_commit p c q e)))"
proof -
  obtain sts e' where x: "exec_stations (name p) (execution_cycles p) c q (stations p) e = (sts, e')"
    by (cases "exec_stations (name p) (execution_cycles p) c q (stations p) e")
  have l: "length (reg_values (e_regs e)) = length (reg_status (e_regs e))"
    using assms by (simp add: regs_ok_def)
  have "e_regs e' = (if list_ex completes (stations p) then written (name p) (e_regs e) else e_regs e)"
    using exec_stations_regs [OF l x] .
  then have "regs_ok (e_regs e')" using assms regs_ok_written by simp
  then show ?thesis using x by (simp add: execute_and_commit_def)
qed

lemma execute_all_decomp:
  obtains e1 e2 e3 e4 e5 e6 e7 where
    "execute_and_commit (load_station s) (current_cycle s) (stalled_queue s) (env_of s)
       = (load_station (execute_all s), e1)"
    "execute_and_commit (add_station s) (current_cycle s) (stalled_queue s) e1
       = (add_station (execute_all s), e2)"
    "execute_and_commit (store_station s) (current_cycle s) (stalled_queue s) e2
       = (store_station (execute_all s), e3)"
    "execute_and_commit (mult_station s) (current_cycle s) (stalled_queue s) e3
       = (mult_station (execute_all s), e4)"
    "execute_and_commit (branch_station s) (current_cycle s) (stalled_queue s) e4
       = (branch_station (execute_all s), e5)"
    "execute_and_commit (call_ret_station s) (current_cycle s) (stalled_queue s) e5
       = (call_ret_station (execute_all s), e6)"
    "execute_and_commit (nand_station s) (current_cycle s) (stalled_queue s) e6
       = (nand_station (execute_all s), e7)"
    "env_of (execute_all s) = e7"
    "instruction_queue (execute_all s) = instruction_queue s"
    "stalled_queue (execute_all s) = stalled_queue s"
    "current_cycle (execute_all s) = current_cycle s"
proof -
  let ?c = "current_cycle s" and ?q = "stalled_queue s"
  obtain p1 e1 where a1: "execute_and_commit (load_station s) ?c ?q (env_of s) = (p1, e1)"
    by (cases "execute_and_commit (load_station s) ?c ?q (env_of s)")
  obtain p2 e2 where a2: "execute_and_commit (add_station s) ?c ?q e1 = (p2, e2)"
    by (cases "execute_and_commit (add_station s) ?c ?q e1")
  obtain p3 e3 where a3: "execute_and_commit (store_station s) ?c ?q e2 = (p3, e3)"
    by (cases "execute_and_commit (store_station s) ?c ?q e2")
  obtain p4 e4 where a4: "execute_and_commit (mult_station s) ?c ?q e3 = (p4, e4)"
    by (cases "execute_and_commit (mult_station s) ?c ?q e3")
  obtain p5 e5 where a5: "execute_and_commit (branch_station s) ?c ?q e4 = (p5, e5)"
    by (cases "execute_and_commit (branch_station s) ?c ?q e4")
  obtain p6 e6 where a6: "execute_and_commit (call_ret_station s) ?c ?q e5 = (p6, e6)"
    by (cases "execute_and_commit (call_ret_station s) ?c ?q e5")
  obtain p7 e7 where a7: "execute_and_commit (nand_station s) ?c ?q e6 = (p7, e7)"
    by (cases "execute_and_commit (nand_station s) ?c ?q e6")
  have x: "execute_all s = with_env e7
          (s\<lparr>load_station := p1, add_station := p2, store_station := p3, mult_station := p4,
             branch_station := p5, call_ret_station := p6, nand_station := p7\<rparr>)"
    by (simp add: execute_all_def Let_def a1 a2 a3 a4 a5 a6 a7)
  have "load_station (execute_all s) = p1" "add_station (execute_all s) = p2"
    "store_station (execute_all s) = p3" "mult_station (execute_all s) = p4"
    "branch_station (execute_all s) = p5" "call_ret_station (execute_all s) = p6"
    "nand_station (execute_all s) = p7" "env_of (execute_all s) = e7"
    "instruction_queue (execute_all s) = instruction_queue s"
    "stalled_queue (execute_all s) = stalled_queue s"
    "current_cycle (execute_all s) = current_cycle s"
    unfolding x by (simp_all add: with_env_def env_of_def)
  then show ?thesis using that a1 a2 a3 a4 a5 a6 a7 by metis
qed

lemma inv_regs_ok: "sim_inv s \<longleftrightarrow> regs_ok (regs s) \<and> (\<forall>pid. untagged (get_pool pid s))"
  by (auto simp: sim_inv_def regs_ok_def)

lemma inv_execute_all:
  assumes "sim_inv s"
  shows "sim_inv (execute_all s)"
proof -
  let ?c = "current_cycle s" and ?q = "stalled_queue s" and ?t = "execute_all s"
  obtain e1 e2 e3 e4 e5 e6 e7 where x:
    "execute_and_commit (load_station s) ?c ?q (env_of s) = (load_station ?t, e1)"
    "execute_and_commit (add_station s) ?c ?q e1 = (add_station ?t, e2)"
    "execute_and_commit (store_station s) ?c ?q e2 = (store_station ?t, e3)"
    "execute_and_commit (mult_station s) ?c ?q e3 = (mult_station ?t, e4)"
    "execute_and_commit (branch_station s) ?c ?q e4 = (branch_station ?t, e5)"
    "execute_and_commit (call_ret_station s) ?c ?q e5 = (call_ret_station ?t, e6)"
    "execute_and_commit (nand_station s) ?c ?q e6 = (nand_station ?t, e7)"
    "env_of ?t = e7"
    by (rule execute_all_decomp [of s])
  have u: "\<And>pid. untagged (get_pool pid s)" and r0: "regs_ok (e_regs (env_of s))"
    using assms by (simp_all add: inv_regs_ok env_of_def)
  have r1: "regs_ok (e_regs e1)"
    using execute_and_commit_regs_ok [OF r0, of "load_station s" ?c ?q] x(1) by simp
  have r2: "regs_ok (e_regs e2)"
    using execute_and_commit_regs_ok [OF r1, of "add_station s" ?c ?q] x(2) by simp
  have r3: "regs_ok (e_regs e3)"
    using execute_and_commit_regs_ok [OF r2, of "store_station s" ?c ?q] x(3) by simp
  have r4: "regs_ok (e_regs e4)"
    using execute_and_commit_regs_ok [OF r3, of "mult_station s" ?c ?q] x(4) by simp
  have r5: "regs_ok (e_regs e5)"
    using execute_and_commit_regs_ok [OF r4, of "branch_station s" ?c ?q] x(5) by simp
  have r6: "regs_ok (e_regs e6)"
    using execute_and_commit_regs_ok [OF r5, of "call_ret_station s" ?c ?q] x(6) by simp
  have r7: "regs_ok (e_regs e7)"
    using execute_and_commit_regs_ok [OF r6, of "nand_station s" ?c ?q] x(7) by simp
  have rt: "regs_ok (regs ?t)" using r7 x(8) by (auto simp: env_of_def)
  have ut: "untagged (get_pool pid ?t)" for pid
  proof (cases pid)
    case PLoad
    then show ?thesis
      using execute_and_commit_untagged [OF u [of PLoad], of ?c ?q "env_of s"] x(1) by simp
  next
    case PAdd
    then show ?thesis
      using execute_and_commit_untagged [OF u [of PAdd], of ?c ?q e1] x(2) by simp
  next
    case PStore
    then show ?thesis
      using execute_and_commit_untagged [OF u [of PStore], of ?c ?q e2] x(3) by simp
  next
    case PMult
    then show ?thesis
      using execute_and_commit_untagged [OF u [of PMult], of ?c ?q e3] x(4) by simp
  next
    case PBranch
    then show ?thesis
      using execute_and_commit_untagged [OF u [of PBranch], of ?c ?q e4] x(5) by simp
  next
    case PCallRet
    then show ?thesis
      using execute_and_commit_untagged [OF u [of PCallRet], of ?c ?q e5] x(6) by simp
  next
    case PNand
    then show ?thesis
      using execute_and_commit_untagged [OF u [of PNand], of ?c ?q e6] x(7) by simp
  qed
  show ?thesis using rt ut by (simp add: inv_regs_ok)
qed

lemma get_pool_commit_step: "get_pool pid (commit_step s) = get_pool pid s"
  by (cases pid) (simp_all add: commit_step_def split: prod.splits)

lemma commit_step_frame:
  "regs (commit_step s) = regs s"
  "stalled_queue (commit_step s) = stalled_queue s"
  "instruction_queue (commit_step s) = instruction_queue s"
  "current_cycle (commit_step s) = current_cycle s"
  "dependency_table (commit_step s) = dependency_table s"
  by (simp_all add: commit_step_def split: prod.splits)

lemma get_pool_cycle_update: "get_pool pid (s\<lparr>current_cycle := c\<rparr>) = get_pool pid s"
  by (cases pid) simp_all

lemma inv_cycle:
  assumes "sim_inv s" and "cycle s = Inr s'"
  shows "sim_inv s'"
proof -
  from assms(2) obtain rem s1 s2 where
    a: "retry_stalled (stalled_queue s) s = Inr (rem, s1)"
    and b: "fetch_issue (s1\<lparr>stalled_queue := rem\<rparr>) = Inr s2"
    and c: "s' = (commit_step (execute_all s2))
               \<lparr>current_cycle := current_cycle (commit_step (execute_all s2)) + 1\<rparr>"
    by (rule cycle_decomp)
  have "sim_inv s2"
  proof (rule issue_phase_invariant [where I = sim_inv])
    show "\<And>pid instr r s s'. sim_inv s \<Longrightarrow> issued_to pid instr r s s' \<Longrightarrow> sim_inv s'"
      by (rule inv_issued_to)
    show "\<And>s q. sim_inv (s\<lparr>instruction_queue := q\<rparr>) = sim_inv s" by (rule inv_queue_updates)
    show "\<And>s q. sim_inv (s\<lparr>stalled_queue := q\<rparr>) = sim_inv s" by (rule inv_queue_updates)
    show "sim_inv s" by fact
    show "retry_stalled (stalled_queue s) s = Inr (rem, s1)" by fact
    show "fetch_issue (s1\<lparr>stalled_queue := rem\<rparr>) = Inr s2" by fact
  qed
  then have "sim_inv (execute_all s2)" by (rule inv_execute_all)
  then show ?thesis unfolding c
    by (simp add: sim_inv_def get_pool_commit_step get_pool_cycle_update commit_step_frame)
qed

lemma untagged_new: "untagged (ReservationStation nm n c)"
  by (simp add: untagged_def ReservationStation_def idle_station_def)

lemma inv_initial: "sim_inv (initial program)"
proof -
  have "untagged (get_pool pid (initial program))" for pid
    by (cases pid) (simp_all add: initial_def untagged_new)
  then show ?thesis by (simp add: sim_inv_def) (simp add: initial_def REGISTER_COUNT_def)
qed

lemma reachable_inv: "reachable program s \<Longrightarrow> sim_inv s"
  by (induction rule: reachable.induct) (auto intro: inv_initial inv_cycle)

lemma run_cycles_reachable:
  "reachable program s \<Longrightarrow> run_cycles n s = Inr s' \<Longrightarrow> reachable program s'"
proof (induction n arbitrary: s)
  case 0
  then show ?case by simp
next
  case (Suc n)
  show ?case
  proof (cases "loop_cond s")
    case False
    then show ?thesis using Suc.prems by simp
  next
    case True
    then obtain s1 where c: "cycle s = Inr s1" and r: "run_cycles n s1 = Inr s'"
      using Suc.prems(2) by (cases "cycle s") simp_all
    have "reachable program s1" using Suc.prems(1) True c by (rule reachable.step)
    then show ?thesis using Suc.IH r by blast
  qed
qed

lemma after_reachable:
  assumes "\<not> isl (run_cycles n (initial program))"
  shows "reachable program (after n program)"
proof -
  obtain s where s: "run_cycles n (initial program) = Inr s"
    using assms by (cases "run_cycles n (initial program)") simp_all
  have "reachable program s" using reachable.start s by (rule run_cycles_reachable)
  then show ?thesis using s by (simp add: after_def)
qed

text \<open>
  C9. In every state in which the loop evaluates its condition, every busy station of every
  pool has \<open>Qj = None\<close> and \<open>Qk = None\<close>; and in any state, an instruction one of whose
  resolved operands carries a tag is not issued by either chain: the state is unchanged and
  the caller keeps the instruction on the stall queue.
\<close>

theorem busy_stations_untagged:
  assumes "reachable program s"
  shows "(\<forall>p \<in> set (pools s). \<forall>st \<in> set (stations p). busy st \<longrightarrow> Qj st = None \<and> Qk st = None)
    \<and> (\<forall>instr vj vk qj qk u. qj \<noteq> None \<or> qk \<noteq> None \<longrightarrow>
          issue_fetched instr (vj, vk, qj, qk) u = Inr (False, u) \<and>
          issue_stalled instr (vj, vk, qj, qk) u = Inr (False, u))"
proof -
  have "sim_inv s" using assms by (rule reachable_inv)
  then have "\<forall>p \<in> set (pools s). untagged p" by (simp add: sim_inv_def pools_get_pool)
  then show ?thesis using issue_fetched_tagged issue_stalled_tagged
    by (simp add: untagged_def)
qed

theorem busy_stations_untagged_witness:
  "reachable two_loads (after 2 two_loads) \<and>
   map busy (stations (load_station (after 2 two_loads))) = [True, True] \<and>
   list_all (\<lambda>p. list_all (\<lambda>st. busy st \<longrightarrow> Qj st = None \<and> Qk st = None) (stations p))
     (pools (after 2 two_loads)) \<and>
   issue_fetched \<lparr>operation = ''ADD'', operands = [''R1'', ''R2'']\<rparr> (None, None, Some ''LOAD'', None)
       (after 2 two_loads) = Inr (False, after 2 two_loads)"
proof -
  have "\<not> isl (run_cycles 2 (initial two_loads))" by code_simp
  then have r: "reachable two_loads (after 2 two_loads)" by (rule after_reachable)
  have b: "map busy (stations (load_station (after 2 two_loads))) = [True, True]" by code_simp
  show ?thesis using busy_stations_untagged [OF r] r b by (simp add: list_all_iff)
qed

subsection \<open>Issue and the reorder buffer\<close>

text \<open>
  C2 as stated fails: the fetch step issues the first load to a station of the load pool
  and no entry of the reorder buffer is taken.
\<close>

theorem issue_takes_no_rob_entry_counterexample:
  "\<not> isl (fetch_issue (initial two_loads)) \<and>
   map busy (stations (load_station (projr (fetch_issue (initial two_loads))))) = [True, False] \<and>
   stalled_queue (projr (fetch_issue (initial two_loads))) = [] \<and>
   map rob_busy (reorder_buffer (projr (fetch_issue (initial two_loads)))) =
     [False, False, False, False, False, False]"
  by code_simp

text \<open>
  C2, as amended. The fetch step never touches the reorder buffer: an entry is taken only
  when a station completes. Either the fetched instruction is issued, which takes one
  station of one pool, appends one metadata record and leaves the stall queue as it was,
  or it is appended to the stall queue and nothing else changes: no station, register
  status or metadata record is held for it.
\<close>

theorem fetch_issue_atomic:
  assumes "fetch_issue s = Inr s'" and "instruction_queue s = instr # rest"
  shows "reorder_buffer s' = reorder_buffer s \<and> instruction_queue s' = rest \<and>
     (s' = s\<lparr>instruction_queue := rest, stalled_queue := stalled_queue s @ [instr]\<rparr> \<or>
      (stalled_queue s' = stalled_queue s \<and>
       instruction_metadata s' = instruction_metadata s @ [new_meta instr (current_cycle s)] \<and>
       (\<exists>pid r. is_available (get_pool pid s) \<and>
          get_pool pid s' = allocated (get_pool pid s) instr r \<and>
          (\<forall>pid'. pid' \<noteq> pid \<longrightarrow> get_pool pid' s' = get_pool pid' s))))"
proof -
  from assms obtain r b s2 where
      i: "issue_fetched instr r (s\<lparr>instruction_queue := rest\<rparr>) = Inr (b, s2)"
      and s': "s' = (if b then s2 else s2\<lparr>stalled_queue := stalled_queue s2 @ [instr]\<rparr>)"
    by (rule fetch_issue_Cons)
  let ?s1 = "s\<lparr>instruction_queue := rest\<rparr>"
  from issue_fetched_cases [OF i]
  consider (stall) "\<not> b" "s2 = ?s1" | (issue) pid where "b" "issued_to pid instr r ?s1 s2"
    by blast
  then show ?thesis
  proof cases
    case stall
    then show ?thesis using s' by simp
  next
    case issue
    note e = issued_to_effect [OF issue(2)]
    have a: "is_available (get_pool pid s)"
      using issue(2) by (simp add: issued_to_def get_pool_queue_updates)
    have "get_pool pid s' = allocated (get_pool pid s) instr r \<and>
          (\<forall>pid'. pid' \<noteq> pid \<longrightarrow> get_pool pid' s' = get_pool pid' s)"
      using e(1,2) s' issue(1) by (simp add: get_pool_queue_updates)
    then have "\<exists>pid r. is_available (get_pool pid s) \<and>
          get_pool pid s' = allocated (get_pool pid s) instr r \<and>
          (\<forall>pid'. pid' \<noteq> pid \<longrightarrow> get_pool pid' s' = get_pool pid' s)"
      using a by blast
    then show ?thesis using e(3,4,5,6,7) s' issue(1) by simp
  qed
qed

theorem fetch_issue_atomic_witness:
  "reorder_buffer (projr (fetch_issue (initial two_loads))) = reorder_buffer (initial two_loads) \<and>
   instruction_queue (projr (fetch_issue (initial two_loads))) = tl two_loads \<and>
   stalled_queue (projr (fetch_issue (initial two_loads))) = [] \<and>
   fetch_issue (after 1 same_dest) =
     Inr ((after 1 same_dest)\<lparr>instruction_queue := [], stalled_queue := tl same_dest\<rparr>)"
proof -
  have h1: "fetch_issue (initial two_loads) = Inr (projr (fetch_issue (initial two_loads)))"
    by code_simp
  have h2: "instruction_queue (initial two_loads) = hd two_loads # tl two_loads"
    by code_simp
  have h3: "stalled_queue (projr (fetch_issue (initial two_loads))) = []"
    by code_simp
  have h4: "fetch_issue (after 1 same_dest) =
     Inr ((after 1 same_dest)\<lparr>instruction_queue := [], stalled_queue := tl same_dest\<rparr>)"
    by code_simp
  show ?thesis using fetch_issue_atomic [OF h1 h2] h3 h4 by simp
qed

subsection \<open>Stations through one call of execute_and_commit\<close>


lemma exec_station_tagged:
  "tagged st \<Longrightarrow> exec_station nm ec c q st e = (st, e)"
  by (auto simp: exec_station_def tagged_def)


lemma exec_stations_length:
  "length (fst (exec_stations nm ec c q sts e)) = length sts"
proof (induction sts arbitrary: e)
  case Nil
  then show ?case by simp
next
  case (Cons st sts)
  obtain st1 e1 where a: "exec_station nm ec c q st e = (st1, e1)"
    by (cases "exec_station nm ec c q st e")
  obtain sts2 e2 where b: "exec_stations nm ec c q sts e1 = (sts2, e2)"
    by (cases "exec_stations nm ec c q sts e1")
  show ?case using Cons.IH [of e1] a b by simp
qed

lemma exec_stations_nth:
  "k < length sts \<Longrightarrow>
   \<exists>e1. fst (exec_stations nm ec c q sts e) ! k = fst (exec_station nm ec c q (sts ! k) e1)"
proof (induction sts arbitrary: e k)
  case Nil
  then show ?case by simp
next
  case (Cons st sts)
  obtain st1 e1 where a: "exec_station nm ec c q st e = (st1, e1)"
    by (cases "exec_station nm ec c q st e")
  obtain sts2 e2 where b: "exec_stations nm ec c q sts e1 = (sts2, e2)"
    by (cases "exec_stations nm ec c q sts e1")
  show ?case
  proof (cases k)
    case 0
    then have "fst (exec_stations nm ec c q (st # sts) e) ! k =
               fst (exec_station nm ec c q ((st # sts) ! k) e)"
      using a b by simp
    then show ?thesis by blast
  next
    case (Suc j)
    then have j: "j < length sts" using Cons.prems by simp
    from Cons.IH [OF j, of e1] obtain e3 where
      "fst (exec_stations nm ec c q sts e1) ! j = fst (exec_station nm ec c q (sts ! j) e3)"
      by blast
    then have "fst (exec_stations nm ec c q (st # sts) e) ! k =
               fst (exec_station nm ec c q ((st # sts) ! k) e3)"
      using a b Suc by simp
    then show ?thesis by blast
  qed
qed

lemma execute_and_commit_stations:
  "stations (fst (execute_and_commit p c q e)) =
   fst (exec_stations (name p) (execution_cycles p) c q (stations p) e)"
  by (simp add: execute_and_commit_def split: prod.splits)




subsection \<open>What a write-back reaches\<close>

text \<open>
  C3 as stated fails. In the run of two loads with different destinations, the completion
  of the first load in cycle 6 writes 42 to both destinations and clears both tags, while
  the second load is still executing. And a station that waits on the tag \<^verbatim>\<open>LOAD\<close> (built
  by hand: the loop never creates one) is left as it was when a load completes.
\<close>

theorem broadcast_counterexample:
  "\<not> isl (run_cycles 6 (initial two_loads)) \<and>
   reg_status (regs (after 5 two_loads)) =
     [None, Some ''LOAD'', None, Some ''LOAD'', None, None, None, None] \<and>
   reg_values (regs (after 6 two_loads)) = [0, 42, 0, 42, 0, 0, 0, 0] \<and>
   reg_status (regs (after 6 two_loads)) = [None, None, None, None, None, None, None, None] \<and>
   map (\<lambda>st. (busy st, cycles_left st)) (stations (load_station (after 6 two_loads)))
     = [(False, 0), (True, 1)] \<and>
   completes (stations waiting_pool ! 0) \<and> Qk (stations waiting_pool ! 1) = Some ''LOAD'' \<and>
   stations (fst (execute_and_commit waiting_pool 6 [] (env_of (after 5 two_loads)))) ! 1
     = stations waiting_pool ! 1"
  by code_simp

text \<open>
  C3, as amended. The tag of a write-back is the name of the pool and the value is 42.
  When a station of the pool completes in a call of \<^verbatim>\<open>execute_and_commit\<close>, every
  register whose status is the pool's name is written and cleared (there may be several, or
  none); otherwise the register file is as before. No station's operands are resolved: a
  station that holds a tag is left exactly as it was (the call receives the stations of its
  own pool only).
\<close>

theorem write_back_reach:
  assumes "execute_and_commit p c q e = (p', e')"
    and "length (reg_values (e_regs e)) = length (reg_status (e_regs e))"
  shows "e_regs e' = (if list_ex completes (stations p) then written (name p) (e_regs e)
                      else e_regs e) \<and>
    length (stations p') = length (stations p) \<and>
    (\<forall>k < length (stations p). tagged (stations p ! k) \<longrightarrow> stations p' ! k = stations p ! k)"
proof -
  let ?r = "fst (exec_stations (name p) (execution_cycles p) c q (stations p) e)"
  obtain sts where x: "exec_stations (name p) (execution_cycles p) c q (stations p) e = (sts, e')"
    using assms(1) by (auto simp: execute_and_commit_def split: prod.splits)
  have r: "e_regs e' = (if list_ex completes (stations p) then written (name p) (e_regs e)
                      else e_regs e)"
    using exec_stations_regs [OF assms(2) x] .
  have s: "stations p' = ?r" using assms(1) execute_and_commit_stations [of p c q e] by simp
  have l: "length ?r = length (stations p)" by (rule exec_stations_length)
  have t: "?r ! k = stations p ! k" if "k < length (stations p)" "tagged (stations p ! k)" for k
  proof -
    from exec_stations_nth [OF that(1)] obtain e1 where
      "?r ! k = fst (exec_station (name p) (execution_cycles p) c q (stations p ! k) e1)"
      by blast
    then show ?thesis using exec_station_tagged [OF that(2)] by simp
  qed
  show ?thesis using r s l t by simp
qed

theorem write_back_reach_witness:
  "list_ex completes (stations waiting_pool) \<and> tagged (stations waiting_pool ! 1) \<and>
   e_regs (snd (execute_and_commit waiting_pool 6 [] (env_of (after 5 two_loads)))) =
     written ''LOAD'' (regs (after 5 two_loads)) \<and>
   stations (fst (execute_and_commit waiting_pool 6 [] (env_of (after 5 two_loads)))) ! 1
     = stations waiting_pool ! 1"
proof -
  let ?e = "env_of (after 5 two_loads)"
  have h: "execute_and_commit waiting_pool 6 [] ?e =
      (fst (execute_and_commit waiting_pool 6 [] ?e), snd (execute_and_commit waiting_pool 6 [] ?e))"
    by simp
  have l: "length (reg_values (e_regs ?e)) = length (reg_status (e_regs ?e))" by code_simp
  have c: "list_ex completes (stations waiting_pool)" "tagged (stations waiting_pool ! 1)"
    "1 < length (stations waiting_pool)" "name waiting_pool = ''LOAD''"
    "e_regs ?e = regs (after 5 two_loads)"
    by code_simp+
  show ?thesis using write_back_reach [OF h l] c by simp
qed

subsection \<open>A tag on the destination register\<close>







subsection \<open>The end of the loop\<close>

lemma loop_cond_iff:
  "loop_cond s \<longleftrightarrow>
   \<not> (instruction_queue s = [] \<and> stalled_queue s = [] \<and>
      (\<forall>p \<in> set (pools s). \<forall>st \<in> set (stations p). \<not> busy st))"
  by (auto simp: loop_cond_def list_ex_iff)

lemma main_loop_exit: "\<not> loop_cond s \<Longrightarrow> main_loop s = Some (Inr s)"
  by (subst main_loop.simps) simp

lemma main_loop_step: "loop_cond s \<Longrightarrow> cycle s = Inr s1 \<Longrightarrow> main_loop s = main_loop s1"
  by (subst main_loop.simps) simp

lemma main_loop_raise: "loop_cond s \<Longrightarrow> cycle s = Inl e \<Longrightarrow> main_loop s = Some (Inl e)"
  by (subst main_loop.simps) simp

lemma main_loop_returns_drained:
  assumes "main_loop s = Some r"
  shows "\<forall>s'. r = Inr s' \<longrightarrow> \<not> loop_cond s'"
proof (rule main_loop.raw_induct [where P = "\<lambda>s r. \<forall>s'. r = Inr s' \<longrightarrow> \<not> loop_cond s'", OF _ assms])
  fix f s r
  assume ih: "\<And>s r. f s = Some r \<Longrightarrow> \<forall>s'. r = Inr s' \<longrightarrow> \<not> loop_cond s'"
    and eq: "(if loop_cond s then (case cycle s of Inl e \<Rightarrow> Some (Inl e) | Inr s' \<Rightarrow> f s')
              else Some (Inr s)) = Some r"
  show "\<forall>s'. r = Inr s' \<longrightarrow> \<not> loop_cond s'"
  proof (cases "loop_cond s")
    case False
    then show ?thesis using eq by auto
  next
    case True
    show ?thesis
    proof (cases "cycle s")
      case (Inl e)
      then show ?thesis using eq True by auto
    next
      case (Inr s1)
      then have "f s1 = Some r" using eq True by simp
      then show ?thesis by (rule ih)
    qed
  qed
qed

lemma retry_stalled_keeps_unknown:
  "retry_stalled q s = Inr (rem, s') \<Longrightarrow> instr \<in> set q \<Longrightarrow>
   pool_for (operation instr) = None \<Longrightarrow> instr \<in> set rem"
proof (induction q arbitrary: s rem s')
  case Nil
  then show ?case by simp
next
  case (Cons x rest)
  from Cons.prems(1) obtain r b s1 rem1 where
      i: "issue_stalled x r s = Inr (b, s1)"
      and t: "retry_stalled rest s1 = Inr (rem1, s')"
      and rem: "rem = (if b then rem1 else x # rem1)"
    by (rule retry_stalled_Cons)
  show ?case
  proof (cases "instr = x")
    case True
    then have "\<not> b" using i issue_stalled_unknown [OF Cons.prems(3), of r s] by simp
    then show ?thesis using rem True by simp
  next
    case False
    then have "instr \<in> set rest" using Cons.prems(2) by simp
    then have "instr \<in> set rem1" using Cons.IH [OF t] Cons.prems(3) by blast
    then show ?thesis using rem by simp
  qed
qed

lemma retry_stalled_queue:
  "retry_stalled q s = Inr (rem, s') \<Longrightarrow> stalled_queue s' = stalled_queue s"
proof (induction q arbitrary: s rem s')
  case Nil
  then show ?case by simp
next
  case (Cons x rest)
  from Cons.prems(1) obtain r b s1 rem1 where
      i: "issue_stalled x r s = Inr (b, s1)"
      and t: "retry_stalled rest s1 = Inr (rem1, s')"
    by (rule retry_stalled_Cons)
  have "stalled_queue s1 = stalled_queue s"
    using issue_stalled_cases [OF i] issued_to_effect(4) by blast
  then show ?case using Cons.IH [OF t] by simp
qed

lemma fetch_issue_stalled_grows:
  assumes "fetch_issue s = Inr s'"
  shows "set (stalled_queue s) \<subseteq> set (stalled_queue s')"
proof (cases "instruction_queue s")
  case Nil
  then show ?thesis using assms by (simp add: fetch_issue_def)
next
  case (Cons instr rest)
  from fetch_issue_atomic [OF assms Cons]
  consider "s' = s\<lparr>instruction_queue := rest, stalled_queue := stalled_queue s @ [instr]\<rparr>"
    | "stalled_queue s' = stalled_queue s" by blast
  then show ?thesis
  proof cases
    case 1
    then have "stalled_queue s' = stalled_queue s @ [instr]"
      by (rule ssubst) simp
    then show ?thesis by auto
  next
    case 2
    then show ?thesis by simp
  qed
qed

lemma cycle_keeps_unknown:
  assumes "cycle s = Inr s'" and "instr \<in> set (stalled_queue s)"
    and "pool_for (operation instr) = None"
  shows "instr \<in> set (stalled_queue s')"
proof -
  from assms(1) obtain rem s1 s2 where
    a: "retry_stalled (stalled_queue s) s = Inr (rem, s1)"
    and b: "fetch_issue (s1\<lparr>stalled_queue := rem\<rparr>) = Inr s2"
    and c: "s' = (commit_step (execute_all s2))
               \<lparr>current_cycle := current_cycle (commit_step (execute_all s2)) + 1\<rparr>"
    by (rule cycle_decomp)
  have "instr \<in> set rem" using retry_stalled_keeps_unknown [OF a assms(2,3)] .
  then have "instr \<in> set (stalled_queue s2)" using fetch_issue_stalled_grows [OF b] by auto
  moreover have "stalled_queue (execute_all s2) = stalled_queue s2"
    by (rule execute_all_decomp [of s2])
  ultimately show ?thesis unfolding c by (simp add: commit_step_frame)
qed

lemma main_loop_unknown_never_ends:
  assumes "main_loop s = Some r"
  shows "\<forall>instr. instr \<in> set (stalled_queue s) \<and> pool_for (operation instr) = None \<longrightarrow>
           (\<forall>s'. r \<noteq> Inr s')"
proof (rule main_loop.raw_induct [where P = "\<lambda>s r. \<forall>instr. instr \<in> set (stalled_queue s) \<and>
    pool_for (operation instr) = None \<longrightarrow> (\<forall>s'. r \<noteq> Inr s')", OF _ assms])
  fix f s r
  assume ih: "\<And>s r. f s = Some r \<Longrightarrow> \<forall>instr. instr \<in> set (stalled_queue s) \<and>
      pool_for (operation instr) = None \<longrightarrow> (\<forall>s'. r \<noteq> Inr s')"
    and eq: "(if loop_cond s then (case cycle s of Inl e \<Rightarrow> Some (Inl e) | Inr s' \<Rightarrow> f s')
              else Some (Inr s)) = Some r"
  show "\<forall>instr. instr \<in> set (stalled_queue s) \<and> pool_for (operation instr) = None \<longrightarrow>
      (\<forall>s'. r \<noteq> Inr s')"
  proof (intro allI impI, elim conjE)
    fix instr s'
    assume m: "instr \<in> set (stalled_queue s)" and u: "pool_for (operation instr) = None"
    have lc: "loop_cond s" using m by (auto simp: loop_cond_def)
    show "r \<noteq> Inr s'"
    proof (cases "cycle s")
      case (Inl e)
      then show ?thesis using eq lc by auto
    next
      case (Inr s1)
      then have "f s1 = Some r" using eq lc by simp
      moreover have "instr \<in> set (stalled_queue s1)" using cycle_keeps_unknown [OF Inr m u] .
      ultimately show ?thesis using ih u by blast
    qed
  qed
qed

subsection \<open>A state in which nothing moves\<close>

lemma exec_stations_idle:
  "\<not> list_ex busy sts \<Longrightarrow> exec_stations nm ec c q sts e = (sts, e)"
  by (induction sts) (simp_all add: exec_station_def)

lemma execute_and_commit_idle:
  "\<not> list_ex busy (stations p) \<Longrightarrow> execute_and_commit p c q e = (p, e)"
  by (simp add: execute_and_commit_def exec_stations_idle)

lemma execute_all_idle:
  assumes "\<not> list_ex (\<lambda>p. list_ex busy (stations p)) (pools s)"
  shows "execute_all s = s"
proof -
  have "\<not> list_ex busy (stations (load_station s))" "\<not> list_ex busy (stations (add_station s))"
    "\<not> list_ex busy (stations (store_station s))" "\<not> list_ex busy (stations (mult_station s))"
    "\<not> list_ex busy (stations (branch_station s))" "\<not> list_ex busy (stations (call_ret_station s))"
    "\<not> list_ex busy (stations (nand_station s))"
    using assms by (simp_all add: pools_def)
  then show ?thesis
    by (simp add: execute_all_def Let_def execute_and_commit_idle with_env_def env_of_def)
qed

lemma commit_step_idle: "\<not> list_ex written_back (reorder_buffer s) \<Longrightarrow> commit_step s = s"
  by (simp add: commit_step_def rob_commit_none)

lemma cycle_idle:
  assumes "instruction_queue s = []"
    and "retry_stalled (stalled_queue s) s = Inr (stalled_queue s, s)"
    and "\<not> list_ex (\<lambda>p. list_ex busy (stations p)) (pools s)"
    and "\<not> list_ex written_back (reorder_buffer s)"
  shows "cycle s = Inr (s\<lparr>current_cycle := current_cycle s + 1\<rparr>)"
proof -
  have f: "fetch_issue s = Inr s" using assms(1) by (simp add: fetch_issue_def)
  show ?thesis
    by (simp add: cycle_def assms(2) f Let_def execute_all_idle [OF assms(3)]
        commit_step_idle [OF assms(4)])
qed

lemma main_loop_run_cycles: "run_cycles n s = Inr s' \<Longrightarrow> main_loop s = main_loop s'"
proof (induction n arbitrary: s)
  case 0
  then show ?case by simp
next
  case (Suc n)
  show ?case
  proof (cases "loop_cond s")
    case False
    then show ?thesis using Suc.prems by simp
  next
    case True
    then obtain s1 where c: "cycle s = Inr s1" and r: "run_cycles n s1 = Inr s'"
      using Suc.prems by (cases "cycle s") simp_all
    show ?thesis using main_loop_step [OF True c] Suc.IH [OF r] by simp
  qed
qed

lemma main_loop_after:
  assumes "\<not> isl (run_cycles n (initial program))"
  shows "main_loop (initial program) = main_loop (after n program)"
proof -
  obtain s where s: "run_cycles n (initial program) = Inr s"
    using assms by (cases "run_cycles n (initial program)") simp_all
  then show ?thesis using main_loop_run_cycles [OF s] by (simp add: after_def)
qed

lemma stuck_cycle: "cycle (stuck_at c) = Inr (stuck_at (c + 1))"
proof -
  have q: "instruction_queue (after 2 two_adds) = []"
    and st: "stalled_queue (after 2 two_adds) = tl two_adds"
    and tl: "tl two_adds = [\<lparr>operation = ''ADD'', operands = [''R1'', ''R3'']\<rparr>]"
    and ro: "resolve_operands (regs (after 2 two_adds)) [''R1'', ''R3'']
               = Inr (None, Some 0, Some ''ADD'', None)"
    and nb: "\<not> list_ex (\<lambda>p. list_ex busy (stations p)) (pools (after 2 two_adds))"
    and nw: "\<not> list_ex written_back (reorder_buffer (after 2 two_adds))"
    by code_simp+
  have 1: "instruction_queue (stuck_at c) = []" using q by (simp add: stuck_at_def)
  have 2: "retry_stalled (stalled_queue (stuck_at c)) (stuck_at c)
             = Inr (stalled_queue (stuck_at c), stuck_at c)"
    using ro by (simp add: stuck_at_def st tl issue_stalled_tagged)
  have 3: "\<not> list_ex (\<lambda>p. list_ex busy (stations p)) (pools (stuck_at c))"
    using nb by (simp add: stuck_at_def pools_def)
  have 4: "\<not> list_ex written_back (reorder_buffer (stuck_at c))"
    using nw by (simp add: stuck_at_def)
  show ?thesis using cycle_idle [OF 1 2 3 4] by (simp add: stuck_at_def)
qed

lemma stuck_loop_cond: "loop_cond (stuck_at c)"
proof -
  have "stalled_queue (after 2 two_adds) \<noteq> []" by code_simp
  then show ?thesis by (simp add: loop_cond_def stuck_at_def)
qed

lemma stuck_forever: "main_loop (stuck_at c) = None"
proof (cases "main_loop (stuck_at c)")
  case None
  then show ?thesis .
next
  case (Some r)
  have "\<forall>c. stuck_at c0 \<noteq> stuck_at c"
    if "main_loop (stuck_at c0) = Some r" for c0
  proof (rule main_loop.raw_induct [where P = "\<lambda>s r. \<forall>c. s \<noteq> stuck_at c", OF _ that])
    fix f s r
    assume ih: "\<And>s r. f s = Some r \<Longrightarrow> \<forall>c. s \<noteq> stuck_at c"
      and eq: "(if loop_cond s then (case cycle s of Inl e \<Rightarrow> Some (Inl e) | Inr s' \<Rightarrow> f s')
              else Some (Inr s)) = Some r"
    show "\<forall>c. s \<noteq> stuck_at c"
    proof
      fix c
      show "s \<noteq> stuck_at c"
      proof
        assume s: "s = stuck_at c"
        then have "f (stuck_at (c + 1)) = Some r"
          using eq by (simp add: stuck_loop_cond stuck_cycle)
        then have "stuck_at (c + 1) \<noteq> stuck_at (c + 1)" using ih by blast
        then show False by simp
      qed
    qed
  qed
  then show ?thesis using Some by blast
qed

text \<open>
  C7 as stated fails in its second half. The second add waits for register 1, whose tag
  \<^verbatim>\<open>ADD\<close> no write-back ever clears; the stall queue never drains, nothing is raised, and
  the loop does not end.
\<close>

theorem deadlock_counterexample:
  "load_program (Some [''ADD R1, R2'', ''ADD R1, R3'']) = Inr two_adds \<and>
   main (Some [''ADD R1, R2'', ''ADD R1, R3'']) = None"
proof -
  have l: "load_program (Some [''ADD R1, R2'', ''ADD R1, R3'']) = Inr two_adds" by code_simp
  have r: "\<not> isl (run_cycles 2 (initial two_adds))" by code_simp
  have "after 2 two_adds = stuck_at (current_cycle (after 2 two_adds))"
    by (simp add: stuck_at_def)
  then have "main_loop (after 2 two_adds) = None" using stuck_forever by metis
  then have "main_loop (initial two_adds) = None" using main_loop_after [OF r] by simp
  then show ?thesis using l by (simp add: main_def)
qed

text \<open>
  C7, as amended. The loop runs its body while the program sequence is not exhausted, the
  stall queue is not empty or some station of some pool is busy, and it ends, without an
  error, exactly in a state where none of the three holds. There is no deadlock detection:
  while the stall queue holds an instruction whose mnemonic no pool accepts, the loop never
  ends normally (it runs forever unless a Python exception leaves it).
\<close>

theorem loop_ends_when_drained:
  "(loop_cond s \<longleftrightarrow>
      \<not> (instruction_queue s = [] \<and> stalled_queue s = [] \<and>
         (\<forall>p \<in> set (pools s). \<forall>st \<in> set (stations p). \<not> busy st))) \<and>
   (\<not> loop_cond s \<longrightarrow> main_loop s = Some (Inr s)) \<and>
   (loop_cond s \<longrightarrow>
      main_loop s = (case cycle s of Inl e \<Rightarrow> Some (Inl e) | Inr s1 \<Rightarrow> main_loop s1)) \<and>
   (main_loop s = Some (Inr s') \<longrightarrow> \<not> loop_cond s') \<and>
   (\<forall>instr. instr \<in> set (stalled_queue s) \<and> pool_for (operation instr) = None \<longrightarrow>
      main_loop s \<noteq> Some (Inr s'))"
proof (intro conjI)
  show "loop_cond s \<longleftrightarrow>
      \<not> (instruction_queue s = [] \<and> stalled_queue s = [] \<and>
         (\<forall>p \<in> set (pools s). \<forall>st \<in> set (stations p). \<not> busy st))"
    by (rule loop_cond_iff)
  show "\<not> loop_cond s \<longrightarrow> main_loop s = Some (Inr s)"
    using main_loop_exit by blast
  show "loop_cond s \<longrightarrow>
      main_loop s = (case cycle s of Inl e \<Rightarrow> Some (Inl e) | Inr s1 \<Rightarrow> main_loop s1)"
    by (subst main_loop.simps) simp
  show "main_loop s = Some (Inr s') \<longrightarrow> \<not> loop_cond s'"
    using main_loop_returns_drained by blast
  show "\<forall>instr. instr \<in> set (stalled_queue s) \<and> pool_for (operation instr) = None \<longrightarrow>
      main_loop s \<noteq> Some (Inr s')"
    using main_loop_unknown_never_ends [of s "Inr s'"] by blast
qed

theorem loop_ends_when_drained_witness:
  "\<not> loop_cond (after 12 three_loads) \<and>
   main_loop (after 12 three_loads) = Some (Inr (after 12 three_loads)) \<and>
   main_loop (initial three_loads) = Some (Inr (after 12 three_loads)) \<and>
   hd unknown_op \<in> set (stalled_queue (after 1 unknown_op)) \<and>
   pool_for (operation (hd unknown_op)) = None \<and>
   main_loop (after 1 unknown_op) \<noteq> Some (Inr (initial []))"
proof -
  have a: "\<not> loop_cond (after 12 three_loads)" by code_simp
  have b: "\<not> isl (run_cycles 12 (initial three_loads))" by code_simp
  have c: "hd unknown_op \<in> set (stalled_queue (after 1 unknown_op))"
    "pool_for (operation (hd unknown_op)) = None" by code_simp+
  note t1 = loop_ends_when_drained [of "after 12 three_loads" "initial []"]
  note t2 = loop_ends_when_drained [of "after 1 unknown_op" "initial []"]
  have d: "main_loop (after 12 three_loads) = Some (Inr (after 12 three_loads))"
    using t1 [THEN conjunct2, THEN conjunct1] a by blast
  have e: "main_loop (initial three_loads) = Some (Inr (after 12 three_loads))"
    using main_loop_after [OF b] d by simp
  have f: "main_loop (after 1 unknown_op) \<noteq> Some (Inr (initial []))"
    using t2 [THEN conjunct2, THEN conjunct2, THEN conjunct2, THEN conjunct2] c by blast
  show ?thesis using a c d e f by (intro conjI)
qed

end
